theory Spec2Isabelle
  imports Main "HOL-Library.Char_ord" "HOL-Library.List_Lexorder" "HOL-Library.Multiset"
begin

section \<open>Key space codec of \<open>util/transaction_test_util.cc\<close>\<close>

text \<open>
  The harness addresses a key by the text \<open>[SET#][random#]\<close>: the set number plus one
  printed with \<open>snprintf("%.4u")\<close> (at least four decimal digits, padded with zeros),
  followed by \<open>ToString(ikey)\<close>, the decimal text of the key number.
\<close>

definition digit_char :: "nat \<Rightarrow> char" where
  "digit_char d = ''0123456789'' ! d"

text \<open>
  Modelled from the spec: \<open>ToString\<close> of \<open>util/string_util.h\<close> is outside the file; the
  spec has the key text as \<open>zero_pad4(set+1) || decimal(key)\<close>, so \<open>ToString\<close> on an
  unsigned integer is its decimal digits, most significant first, with no padding.
\<close>

fun ToString :: "nat \<Rightarrow> string" where
  "ToString n =
     (if n < 10 then [digit_char n] else ToString (n div 10) @ [digit_char (n mod 10)])"

declare ToString.simps [simp del]

text \<open>\<open>snprintf(prefix_buf, sizeof(prefix_buf), "%.4u", set_i + 1)\<close>: the precision pads
  to four digits and never truncates; the buffer of six bytes holds the five digits of
  the largest \<open>uint16_t\<close> plus one.\<close>

definition zero_pad4 :: "nat \<Rightarrow> string" where
  "zero_pad4 n = replicate (4 - length (ToString n)) (CHR ''0'') @ ToString n"

definition set_prefix :: "nat \<Rightarrow> string" where
  "set_prefix set_i = zero_pad4 (set_i + 1)"

text \<open>\<open>*full_key = std::string(prefix_buf) + base_key.ToString()\<close> in \<open>DBGet\<close>.\<close>

definition full_key :: "nat \<Rightarrow> nat \<Rightarrow> string" where
  "full_key set_i ikey = set_prefix set_i @ ToString ikey"

text \<open>The scan of \<open>Verify\<close> decides membership of a key in a set by
  \<open>key.ToString().compare(0, 4, prefix_buf) != 0\<close>: the first four characters of the key
  against the whole prefix text.\<close>

definition has_prefix :: "string \<Rightarrow> string \<Rightarrow> bool" where
  "has_prefix key prefix_buf = (take 4 key = prefix_buf)"

text \<open>The number a text of decimal digits denotes (used to read a prefix back).\<close>

definition digit_val :: "char \<Rightarrow> nat" where
  "digit_val c = of_char c - 48"

definition dec_val :: "string \<Rightarrow> nat" where
  "dec_val s = foldl (\<lambda>a c. 10 * a + digit_val c) 0 s"

definition is_digit :: "char \<Rightarrow> bool" where
  "is_digit c = (48 \<le> (of_char c :: nat) \<and> (of_char c :: nat) \<le> 57)"

section \<open>Statuses, outcomes and decoded values\<close>

text \<open>
  Modelled from the spec: the class \<open>Status\<close> is outside the file; every operation
  returns a classified outcome, \<open>Ok\<close>, \<open>NotFound\<close>, a conflict (busy, timed out, retry
  needed), \<open>Expired\<close>, or anything else. These are the codes the harness tells apart
  (\<open>ok\<close>, \<open>IsNotFound\<close>, \<open>Corruption\<close>, \<open>IsBusy\<close>, \<open>IsTimedOut\<close>, \<open>IsTryAgain\<close>,
  \<open>IsExpired\<close>); \<open>IOError\<close> stands for every code it has no test for.
\<close>

datatype status = OK | NotFound | Corruption | Busy | TimedOut | TryAgain | Expired | IOError

text \<open>How a call of the harness ends: it returns, an \<open>assert\<close> fails (only in a build
  with assertions, \<open>ndebug = False\<close>), \<open>std::stoull\<close> throws, or an integer division by
  zero traps.\<close>

datatype 'a outcome = Returned 'a | AssertionFailed | Thrown | Crashed

definition ULONG_MAX :: nat where
  "ULONG_MAX = 2 ^ 64 - 1"

text \<open>Arithmetic on \<open>uint64_t\<close> wraps.\<close>

definition u64 :: "nat \<Rightarrow> nat" where
  "u64 n = n mod 2 ^ 64"

definition is_space :: "char \<Rightarrow> bool" where
  "is_space c = ((of_char c :: nat) = 32 \<or> (9 \<le> (of_char c :: nat) \<and> (of_char c :: nat) \<le> 13))"

text \<open>\<open>std::stoull(value)\<close>: skips white space, reads an optional sign and then decimal
  digits; \<open>None\<close> is the exception thrown when there is no digit or the number does not
  fit; a minus sign negates modulo \<open>2^64\<close>.\<close>

definition stoull :: "string \<Rightarrow> nat option" where
  "stoull str =
     (let s1 = dropWhile is_space str;
          neg = (s1 \<noteq> [] \<and> hd s1 = CHR ''-'');
          s2 = (if s1 \<noteq> [] \<and> (hd s1 = CHR ''-'' \<or> hd s1 = CHR ''+'') then tl s1 else s1);
          ds = takeWhile is_digit s2
      in if ds = [] then None
         else if ULONG_MAX < dec_val ds then None
         else Some (if neg then u64 (2 ^ 64 - dec_val ds) else dec_val ds))"

section \<open>The storage engine and the console\<close>

text \<open>What the harness prints: every line but the inconsistent totals goes to
  \<open>stderr\<close>, the inconsistent totals go to \<open>stdout\<close>.\<close>

datatype message =
    GetUnexpectedValue string
  | GetError status
  | PutError status
  | CommitError status
  | WriteError status
  | TotxnGetError status
  | OpsizeExceed
  | IterUnexpectedValue string
  | InconsistentTotals nat nat nat nat

text \<open>A buffered write of a transaction: the column family (\<open>None\<close> is the default
  one), the key, and the value (\<open>None\<close> for a delete).\<close>

datatype wop = WriteOp "nat option" string "string option"

text \<open>The calls the engine receives, with the status it answered.\<close>

datatype call =
    TxnGet "nat option" string bool status string
  | DbGet string status string
  | TxnPut "nat option" string string status
  | TxnDelete "nat option" string status
  | TxnPrepare status
  | TxnCommit status
  | TxnRollback status
  | TxnSetCommitTimeStamp status
  | DbWrite "(string \<times> string) list" status
  | GetSnapshot
  | ReleaseSnapshot
  | NewIterator
  | DeleteIterator

text \<open>
  Modelled from the spec: the storage engine under test (\<open>DB\<close>, \<open>Transaction\<close>,
  \<open>TOTransaction\<close>, \<open>Iterator\<close>, snapshots) is outside the file; the harness consumes
  its get, put, delete, prepare, commit, rollback, write, snapshot and iterator
  primitives as an opaque capability set in which every operation returns a status.
  The model is a single-threaded store: the committed entries of the default column
  family in key order (the order an iterator walks), the entries of the other column
  families, the write set of the open transaction (newest first), counters of the
  snapshots and iterators not yet given back, the calls received, and a script of
  statuses: each call that returns a status takes the next one of the script; \<open>OK\<close>
  (also when the script is used up) lets the call do its work, any other status is
  answered as it is and the call has no effect. The console is kept beside it.
\<close>

record store =
  contents :: "(string \<times> string) list"
  families :: "nat \<Rightarrow> (string \<times> string) list"
  pending :: "wop list"
  faults :: "status list"
  calls :: "call list"
  snapshots :: nat
  iterators :: nat
  console :: "message list"

definition print :: "message \<Rightarrow> store \<Rightarrow> store" where
  "print m st = st\<lparr>console := console st @ [m]\<rparr>"

definition record_call :: "call \<Rightarrow> store \<Rightarrow> store" where
  "record_call c st = st\<lparr>calls := calls st @ [c]\<rparr>"

definition next_fault :: "store \<Rightarrow> status \<times> store" where
  "next_fault st = (case faults st of [] \<Rightarrow> (OK, st) | f # fs \<Rightarrow> (f, st\<lparr>faults := fs\<rparr>))"

fun put_entry :: "string \<Rightarrow> string \<Rightarrow> (string \<times> string) list \<Rightarrow> (string \<times> string) list" where
  "put_entry k v [] = [(k, v)]"
| "put_entry k v ((k', v') # es) =
     (if k < k' then (k, v) # (k', v') # es
      else if k = k' then (k, v) # es
      else (k', v') # put_entry k v es)"

definition del_entry :: "string \<Rightarrow> (string \<times> string) list \<Rightarrow> (string \<times> string) list" where
  "del_entry k es = filter (\<lambda>e. fst e \<noteq> k) es"

definition family_entries :: "store \<Rightarrow> nat option \<Rightarrow> (string \<times> string) list" where
  "family_entries st cf = (case cf of None \<Rightarrow> contents st | Some c \<Rightarrow> families st c)"

definition set_family :: "nat option \<Rightarrow> (string \<times> string) list \<Rightarrow> store \<Rightarrow> store" where
  "set_family cf es st =
     (case cf of None \<Rightarrow> st\<lparr>contents := es\<rparr>
      | Some c \<Rightarrow> st\<lparr>families := (families st)(c := es)\<rparr>)"

fun apply_wop :: "wop \<Rightarrow> store \<Rightarrow> store" where
  "apply_wop (WriteOp cf k (Some v)) st = set_family cf (put_entry k v (family_entries st cf)) st"
| "apply_wop (WriteOp cf k None) st = set_family cf (del_entry k (family_entries st cf)) st"

text \<open>The newest buffered write to a key, if any.\<close>

fun pending_find :: "nat option \<Rightarrow> string \<Rightarrow> wop list \<Rightarrow> string option option" where
  "pending_find cf k [] = None"
| "pending_find cf k (WriteOp cf' k' v # ws) =
     (if cf' = cf \<and> k' = k then Some v else pending_find cf k ws)"

definition txn_lookup :: "store \<Rightarrow> nat option \<Rightarrow> string \<Rightarrow> string option" where
  "txn_lookup st cf k =
     (case pending_find cf k (pending st) of
        Some v \<Rightarrow> v
      | None \<Rightarrow> map_of (family_entries st cf) k)"

definition answer_get :: "status \<Rightarrow> string option \<Rightarrow> status \<times> string" where
  "answer_get f found =
     (if f \<noteq> OK then (f, [])
      else case found of None \<Rightarrow> (NotFound, []) | Some v \<Rightarrow> (OK, v))"

definition txn_get :: "nat option \<Rightarrow> string \<Rightarrow> bool \<Rightarrow> store \<Rightarrow> (status \<times> string) \<times> store" where
  "txn_get cf k for_update st =
     (let (f, st1) = next_fault st;
          (s, v) = answer_get f (txn_lookup st1 cf k)
      in ((s, v), record_call (TxnGet cf k for_update s v) st1))"

definition db_get :: "string \<Rightarrow> store \<Rightarrow> (status \<times> string) \<times> store" where
  "db_get k st =
     (let (f, st1) = next_fault st;
          (s, v) = answer_get f (map_of (contents st1) k)
      in ((s, v), record_call (DbGet k s v) st1))"

definition txn_put :: "nat option \<Rightarrow> string \<Rightarrow> string \<Rightarrow> store \<Rightarrow> status \<times> store" where
  "txn_put cf k v st =
     (let (f, st1) = next_fault st;
          st2 = (if f = OK then st1\<lparr>pending := WriteOp cf k (Some v) # pending st1\<rparr> else st1)
      in (f, record_call (TxnPut cf k v f) st2))"

definition txn_delete :: "nat option \<Rightarrow> string \<Rightarrow> store \<Rightarrow> status \<times> store" where
  "txn_delete cf k st =
     (let (f, st1) = next_fault st;
          st2 = (if f = OK then st1\<lparr>pending := WriteOp cf k None # pending st1\<rparr> else st1)
      in (f, record_call (TxnDelete cf k f) st2))"

definition txn_prepare :: "store \<Rightarrow> status \<times> store" where
  "txn_prepare st = (let (f, st1) = next_fault st in (f, record_call (TxnPrepare f) st1))"

definition txn_set_commit_timestamp :: "store \<Rightarrow> status \<times> store" where
  "txn_set_commit_timestamp st =
     (let (f, st1) = next_fault st in (f, record_call (TxnSetCommitTimeStamp f) st1))"

definition txn_commit :: "store \<Rightarrow> status \<times> store" where
  "txn_commit st =
     (let (f, st1) = next_fault st;
          st2 = (if f = OK then (foldr apply_wop (pending st1) st1)\<lparr>pending := []\<rparr> else st1)
      in (f, record_call (TxnCommit f) st2))"

definition txn_rollback :: "store \<Rightarrow> status \<times> store" where
  "txn_rollback st =
     (let (f, st1) = next_fault st;
          st2 = (if f = OK then st1\<lparr>pending := []\<rparr> else st1)
      in (f, record_call (TxnRollback f) st2))"

definition db_write :: "(string \<times> string) list \<Rightarrow> store \<Rightarrow> status \<times> store" where
  "db_write batch st =
     (let (f, st1) = next_fault st;
          st2 = (if f = OK
                 then st1\<lparr>contents := foldl (\<lambda>es kv. put_entry (fst kv) (snd kv) es) (contents st1) batch\<rparr>
                 else st1)
      in (f, record_call (DbWrite batch f) st2))"

definition get_snapshot :: "store \<Rightarrow> store" where
  "get_snapshot st = record_call GetSnapshot (st\<lparr>snapshots := snapshots st + 1\<rparr>)"

definition release_snapshot :: "store \<Rightarrow> store" where
  "release_snapshot st = record_call ReleaseSnapshot (st\<lparr>snapshots := snapshots st - 1\<rparr>)"

definition new_iterator :: "store \<Rightarrow> store" where
  "new_iterator st = record_call NewIterator (st\<lparr>iterators := iterators st + 1\<rparr>)"

definition delete_iterator :: "store \<Rightarrow> store" where
  "delete_iterator st = record_call DeleteIterator (st\<lparr>iterators := iterators st - 1\<rparr>)"

section \<open>Random choices\<close>

text \<open>
  Modelled from the spec: the generator \<open>Random64\<close> is outside the file and is consumed
  as an opaque uniform generator. It is the script of its future draws: \<open>Next\<close> takes
  the next 64-bit draw, \<open>Uniform n\<close> the next draw reduced to \<open>[0, n)\<close>, and \<open>OneIn n\<close>
  is \<open>Uniform n = 0\<close>; a script used up draws 0.
\<close>

definition draw :: "nat list \<Rightarrow> nat \<times> nat list" where
  "draw rs = (case rs of [] \<Rightarrow> (0, []) | r # rs' \<Rightarrow> (u64 r, rs'))"

definition draw_uniform :: "nat \<Rightarrow> nat list \<Rightarrow> nat \<times> nat list" where
  "draw_uniform n rs = (let (r, rs') = draw rs in (r mod n, rs'))"

definition draw_one_in :: "nat \<Rightarrow> nat list \<Rightarrow> bool \<times> nat list" where
  "draw_one_in n rs = (let (r, rs') = draw_uniform n rs in (r = 0, rs'))"

text \<open>\<open>std::random_shuffle(first, last, rand)\<close> as the standard library runs it: for
  each position \<open>i\<close> from 1 on, the element at \<open>i\<close> is swapped with the one at
  \<open>rand(i + 1)\<close>. \<open>std::shuffle\<close> with a \<open>std::random_device\<close> makes the same swaps with
  indices from the device, whose draws are a script of their own.\<close>

definition swap_at :: "nat \<Rightarrow> nat \<Rightarrow> 'a list \<Rightarrow> 'a list" where
  "swap_at i j xs = (if i = j then xs else xs[i := xs ! j, j := xs ! i])"

fun shuffle_steps :: "nat \<Rightarrow> nat \<Rightarrow> 'a list \<Rightarrow> nat list \<Rightarrow> 'a list \<times> nat list" where
  "shuffle_steps 0 i xs rs = (xs, rs)"
| "shuffle_steps (Suc n) i xs rs =
     (let (j, rs') = draw_uniform (i + 1) rs
      in shuffle_steps n (i + 1) (swap_at i j xs) rs')"

definition random_shuffle :: "'a list \<Rightarrow> nat list \<Rightarrow> 'a list \<times> nat list" where
  "random_shuffle xs rs = shuffle_steps (length xs - 1) 1 xs rs"

definition std_shuffle :: "nat list \<Rightarrow> 'a list \<Rightarrow> 'a list" where
  "std_shuffle device xs = fst (random_shuffle xs device)"

section \<open>Reading one key: \<open>DBGet\<close>\<close>

text \<open>The handle a call works on: the plain \<open>DB\<close> (\<open>txn == nullptr\<close>) or a
  transaction.\<close>

datatype handle = PlainDB | InTxn

text \<open>
  \<open>DBGet(db, txn, read_options, set_i, ikey, get_for_update, &int_value, &full_key,
  &unexpected_error)\<close>, both overloads (the one for \<open>TOTransaction\<close> has no
  \<open>get_for_update\<close>). The result is the status, \<open>*int_value\<close>, \<open>*full_key\<close> and
  \<open>*unexpected_error\<close>, with the store after the call.
\<close>

definition DBGet ::
  "bool \<Rightarrow> handle \<Rightarrow> nat \<Rightarrow> nat \<Rightarrow> bool \<Rightarrow> nat \<Rightarrow> bool \<Rightarrow> store
     \<Rightarrow> (status \<times> nat \<times> string \<times> bool \<times> store) outcome" where
  "DBGet ndebug tgt set_i ikey get_for_update int_value unexpected_error st =
     (if \<not> ndebug \<and> \<not> set_i + 1 \<le> 9999 then AssertionFailed
      else
        let key = full_key set_i ikey;
            ((s, v), st1) = (case tgt of InTxn \<Rightarrow> txn_get None key get_for_update st
                             | PlainDB \<Rightarrow> db_get key st)
        in if s = OK then
             (case stoull v of
                None \<Rightarrow> Thrown
              | Some iv \<Rightarrow>
                  if iv = 0 \<or> iv = ULONG_MAX
                  then Returned (Corruption, iv, key, True, print (GetUnexpectedValue v) st1)
                  else Returned (OK, iv, key, unexpected_error, st1))
           else if s = NotFound then Returned (OK, 0, key, unexpected_error, st1)
           else Returned (s, int_value, key, unexpected_error, st1))"

definition DBGet_TO ::
  "bool \<Rightarrow> handle \<Rightarrow> nat \<Rightarrow> nat \<Rightarrow> nat \<Rightarrow> bool \<Rightarrow> store
     \<Rightarrow> (status \<times> nat \<times> string \<times> bool \<times> store) outcome" where
  "DBGet_TO ndebug tgt set_i ikey int_value unexpected_error st =
     DBGet ndebug tgt set_i ikey False int_value unexpected_error st"

section \<open>\<open>Verify\<close>\<close>

text \<open>The point lookups of one set: \<open>for (k = 0; k < num_keys_per_set; k++)\<close>, with
  \<open>n\<close> the number of keys still to read. With assertions compiled out a failed or
  corrupt read only adds what \<open>DBGet\<close> left in \<open>int_value\<close>.\<close>

fun point_lookups :: "bool \<Rightarrow> nat \<Rightarrow> nat \<Rightarrow> nat \<Rightarrow> nat \<Rightarrow> store \<Rightarrow> (nat \<times> store) outcome" where
  "point_lookups ndebug set_i k 0 tot st = Returned (tot, st)"
| "point_lookups ndebug set_i k (Suc n) tot st =
     (case DBGet ndebug PlainDB set_i k False 0 False st of
        Returned (s, int_value, dont_care, unexpected_error, st1) \<Rightarrow>
          if \<not> ndebug \<and> (s \<noteq> OK \<or> unexpected_error) then AssertionFailed
          else point_lookups ndebug set_i (k + 1) n (u64 (tot + int_value)) st1
      | AssertionFailed \<Rightarrow> AssertionFailed
      | Thrown \<Rightarrow> Thrown
      | Crashed \<Rightarrow> Crashed)"

text \<open>The iterator loop of one set over the entries from the seek position on:
  \<open>Inl v\<close> is the early \<open>return Status::Corruption()\<close> at the value text \<open>v\<close>, \<open>Inr tot\<close>
  the end of the loop.\<close>

fun iterate_set :: "string \<Rightarrow> (string \<times> string) list \<Rightarrow> nat \<Rightarrow> (string + nat) outcome" where
  "iterate_set prefix_buf [] tot = Returned (Inr tot)"
| "iterate_set prefix_buf ((key, val) # es) tot =
     (if \<not> has_prefix key prefix_buf then Returned (Inr tot)
      else case stoull val of
             None \<Rightarrow> Thrown
           | Some int_value \<Rightarrow>
               if int_value = 0 \<or> int_value = ULONG_MAX then Returned (Inl val)
               else iterate_set prefix_buf es (u64 (tot + int_value)))"

text \<open>\<open>iter->Seek(Slice(prefix_buf, 4))\<close>: the entries from the first key not below
  the first four characters of the prefix.\<close>

definition seek :: "string \<Rightarrow> (string \<times> string) list \<Rightarrow> (string \<times> string) list" where
  "seek target es = dropWhile (\<lambda>e. fst e < target) es"

text \<open>The total of one set, by point lookups or by the iterator:
  \<open>if (num_keys_per_set != 0 && rand && rand->OneIn(10))\<close> draws only when the first two
  tests hold. \<open>rnd\<close> is the caller's generator (\<open>None\<close> for a null pointer). \<open>Inl v\<close> is
  the early return at the value text \<open>v\<close> (the iterator is not deleted on that path),
  \<open>Inr tot\<close> the total.\<close>

definition sum_set ::
  "bool \<Rightarrow> nat \<Rightarrow> nat \<Rightarrow> nat list option \<Rightarrow> store
     \<Rightarrow> ((string + nat) \<times> nat list option \<times> store) outcome" where
  "sum_set ndebug num_keys_per_set set_i rnd st =
     (let prefix_buf = set_prefix set_i;
          (use_point, rnd1) =
            (if num_keys_per_set \<noteq> 0 \<and> rnd \<noteq> None
             then (let (b, rs) = draw_one_in 10 (the rnd) in (b, Some rs))
             else (False, rnd))
      in if use_point
         then (case point_lookups ndebug set_i 0 num_keys_per_set 0 st of
                 Returned (tot, st1) \<Rightarrow> Returned (Inr tot, rnd1, st1)
               | AssertionFailed \<Rightarrow> AssertionFailed
               | Thrown \<Rightarrow> Thrown
               | Crashed \<Rightarrow> Crashed)
         else (let st1 = new_iterator st
               in case iterate_set prefix_buf (seek (take 4 prefix_buf) (contents st1)) 0 of
                    Returned (Inl v) \<Rightarrow> Returned (Inl v, rnd1, print (IterUnexpectedValue v) st1)
                  | Returned (Inr tot) \<Rightarrow> Returned (Inr tot, rnd1, delete_iterator st1)
                  | AssertionFailed \<Rightarrow> AssertionFailed
                  | Thrown \<Rightarrow> Thrown
                  | Crashed \<Rightarrow> Crashed))"

text \<open>The loop over the sets. \<open>prev\<close> is \<open>(prev_i, prev_total)\<close> once \<open>prev_assigned\<close>.
  \<open>Inl s\<close> is an early return of the status \<open>s\<close>, \<open>Inr prev\<close> the end of the loop with
  the last set and its total.\<close>

fun verify_sets ::
  "bool \<Rightarrow> nat \<Rightarrow> nat list \<Rightarrow> (nat \<times> nat) option \<Rightarrow> nat list option \<Rightarrow> store
     \<Rightarrow> ((status + (nat \<times> nat) option) \<times> nat list option \<times> store) outcome" where
  "verify_sets ndebug num_keys_per_set [] prev rnd st = Returned (Inr prev, rnd, st)"
| "verify_sets ndebug num_keys_per_set (set_i # rest) prev rnd st =
     (if \<not> ndebug \<and> \<not> set_i + 1 \<le> 9999 then AssertionFailed
      else
        case sum_set ndebug num_keys_per_set set_i rnd st of
          Returned (Inl v, rnd1, st2) \<Rightarrow> Returned (Inl Corruption, rnd1, st2)
        | Returned (Inr tot, rnd1, st2) \<Rightarrow>
            (case prev of
               Some (prev_i, prev_tot) \<Rightarrow>
                 if tot \<noteq> prev_tot
                 then Returned (Inl Corruption, rnd1,
                                print (InconsistentTotals prev_i prev_tot set_i tot) st2)
                 else verify_sets ndebug num_keys_per_set rest (Some (set_i, tot)) rnd1 st2
             | None \<Rightarrow> verify_sets ndebug num_keys_per_set rest (Some (set_i, tot)) rnd1 st2)
        | AssertionFailed \<Rightarrow> AssertionFailed
        | Thrown \<Rightarrow> Thrown
        | Crashed \<Rightarrow> Crashed)"

text \<open>\<open>Verify(db, num_sets, num_keys_per_set, take_snapshot, rand)\<close>; \<open>device\<close> is the
  script of the \<open>std::random_device\<close> of the shuffle. The result is the status returned
  with the caller's generator and the store after the call.\<close>

definition Verify ::
  "bool \<Rightarrow> nat \<Rightarrow> nat \<Rightarrow> bool \<Rightarrow> nat list \<Rightarrow> nat list option \<Rightarrow> store
     \<Rightarrow> (status \<times> nat list option \<times> store) outcome" where
  "Verify ndebug num_sets num_keys_per_set take_snapshot device rnd st =
     (let st1 = (if take_snapshot then get_snapshot st else st);
          set_vec = std_shuffle device [0..<num_sets]
      in case verify_sets ndebug num_keys_per_set set_vec None rnd st1 of
           Returned (Inl s, rnd1, st2) \<Rightarrow> Returned (s, rnd1, st2)
         | Returned (Inr prev, rnd1, st2) \<Rightarrow>
             Returned (OK, rnd1, if take_snapshot then release_snapshot st2 else st2)
         | AssertionFailed \<Rightarrow> AssertionFailed
         | Thrown \<Rightarrow> Thrown
         | Crashed \<Rightarrow> Crashed)"

text \<open>What a caller of \<open>Verify\<close> sees: the status returned (if the call returns), and
  beside it the console and the snapshots still held.\<close>

definition returned_status :: "(status \<times> nat list option \<times> store) outcome \<Rightarrow> status option" where
  "returned_status r = (case r of Returned (s, rnd, st) \<Rightarrow> Some s | _ \<Rightarrow> None)"

definition console_after :: "(status \<times> nat list option \<times> store) outcome \<Rightarrow> message list" where
  "console_after r = (case r of Returned (s, rnd, st) \<Rightarrow> console st | _ \<Rightarrow> [])"

definition snapshots_after :: "(status \<times> nat list option \<times> store) outcome \<Rightarrow> nat option" where
  "snapshots_after r = (case r of Returned (s, rnd, st) \<Rightarrow> Some (snapshots st) | _ \<Rightarrow> None)"

text \<open>A store that holds the given entries of the default column family and nothing
  else, with no status scripted.\<close>

definition store_of :: "(string \<times> string) list \<Rightarrow> store" where
  "store_of es = \<lparr>contents = es, families = (\<lambda>c. []), pending = [], faults = [], calls = [],
                  snapshots = 0, iterators = 0, console = []\<rparr>"

section \<open>The inserter and \<open>DoInsert\<close>\<close>

text \<open>
  Modelled from the spec: the declaration of the class \<open>RandomTransactionInserter\<close> is in
  the header, outside the file. These are the fields the functions of the file read and
  write (the configuration the constructor stores, the statistics counters and the last
  status); \<open>rand\<close> is the script of the generator \<open>rand_\<close> points to. The counters are
  taken unbounded.
\<close>

record inserter =
  rand :: "nat list"
  num_keys :: nat
  num_sets :: nat
  readpercent :: int
  deletepercent :: int
  conflict_level :: int
  value_size :: nat
  txn_id :: nat
  success_count :: nat
  failure_count :: nat
  bytes_inserted :: nat
  bytes_read :: nat
  gets_done :: nat
  puts_done :: nat
  deletes_done :: nat
  found :: nat
  last_status :: status

definition rand_Next :: "inserter \<Rightarrow> nat \<times> inserter" where
  "rand_Next h = (let (r, rs) = draw (rand h) in (r, h\<lparr>rand := rs\<rparr>))"

definition rand_OneIn :: "nat \<Rightarrow> inserter \<Rightarrow> bool \<times> inserter" where
  "rand_OneIn n h = (let (b, rs) = draw_one_in n (rand h) in (b, h\<lparr>rand := rs\<rparr>))"

text \<open>The locals of \<open>DoInsert\<close> that live across the loop (\<open>s\<close>, \<open>unexpected_error\<close>,
  \<open>batch\<close>), with the inserter and the store.\<close>

record insert_state =
  ls_status :: status
  ls_unexpected :: bool
  ls_batch :: "(string \<times> string) list"
  ls_ins :: inserter
  ls_eng :: store

definition is_conflict :: "status \<Rightarrow> bool" where
  "is_conflict s = (s = Busy \<or> s = TimedOut \<or> s = TryAgain)"

text \<open>One pass of the loop \<open>for (uint16_t set_i : set_vec)\<close> of
  \<open>DoInsert(DB*, Transaction*, bool is_optimistic)\<close>. The flag of the result is \<open>True\<close>
  when the loop goes on and \<open>False\<close> at a \<open>break\<close>. An unexpected status of \<open>Put\<close> sets
  \<open>unexpected_error\<close> and does not leave the loop.\<close>

definition insert_step ::
  "bool \<Rightarrow> handle \<Rightarrow> bool \<Rightarrow> nat \<Rightarrow> nat \<Rightarrow> insert_state \<Rightarrow> (bool \<times> insert_state) outcome" where
  "insert_step ndebug tgt is_optimistic incr set_i ls =
     (if num_keys (ls_ins ls) = 0 then Crashed
      else
        let (r, h1) = rand_Next (ls_ins ls);
            rand_key = r mod num_keys h1;
            (get_for_update, h2) = (if tgt = InTxn then rand_OneIn 2 h1 else (False, h1))
        in case DBGet ndebug tgt set_i rand_key get_for_update 0 (ls_unexpected ls) (ls_eng ls) of
             Returned (s, int_value, key, ue, st1) \<Rightarrow>
               if s \<noteq> OK then
                 (if is_optimistic \<or> \<not> is_conflict s
                  then Returned (False, ls\<lparr>ls_status := s, ls_unexpected := True, ls_ins := h2,
                                           ls_eng := print (GetError s) st1\<rparr>)
                  else Returned (False, ls\<lparr>ls_status := s, ls_unexpected := ue, ls_ins := h2,
                                           ls_eng := st1\<rparr>))
               else
                 let sum_text = ToString (u64 (int_value + incr));
                     h3 = h2\<lparr>bytes_inserted := bytes_inserted h2 + length key + length sum_text\<rparr>
                 in (case tgt of
                       InTxn \<Rightarrow>
                         let (s2, st2) = txn_put None key sum_text st1
                         in if \<not> get_for_update \<and> (s2 = Busy \<or> s2 = TimedOut)
                            then Returned (False, ls\<lparr>ls_status := s2, ls_unexpected := ue,
                                                     ls_ins := h2, ls_eng := st2\<rparr>)
                            else if s2 \<noteq> OK
                            then Returned (True, ls\<lparr>ls_status := s2, ls_unexpected := True,
                                                    ls_ins := h3, ls_eng := print (PutError s2) st2\<rparr>)
                            else Returned (True, ls\<lparr>ls_status := s2, ls_unexpected := ue,
                                                    ls_ins := h3, ls_eng := st2\<rparr>)
                     | PlainDB \<Rightarrow>
                         Returned (True, ls\<lparr>ls_status := s, ls_unexpected := ue,
                                               ls_batch := ls_batch ls @ [(key, sum_text)],
                                               ls_ins := h3, ls_eng := st1\<rparr>))
           | AssertionFailed \<Rightarrow> AssertionFailed
           | Thrown \<Rightarrow> Thrown
           | Crashed \<Rightarrow> Crashed)"

fun insert_loop ::
  "bool \<Rightarrow> handle \<Rightarrow> bool \<Rightarrow> nat \<Rightarrow> nat list \<Rightarrow> insert_state \<Rightarrow> insert_state outcome" where
  "insert_loop ndebug tgt is_optimistic incr [] ls = Returned ls"
| "insert_loop ndebug tgt is_optimistic incr (set_i # rest) ls =
     (case insert_step ndebug tgt is_optimistic incr set_i ls of
        Returned (go_on, ls1) \<Rightarrow>
          if go_on then insert_loop ndebug tgt is_optimistic incr rest ls1 else Returned ls1
      | AssertionFailed \<Rightarrow> AssertionFailed
      | Thrown \<Rightarrow> Thrown
      | Crashed \<Rightarrow> Crashed)"

text \<open>After the loop: prepare, commit or roll back, or write the batch, and classify a
  failure. With assertions compiled out, \<open>assert(txn->Rollback().ok())\<close> does not call
  \<open>Rollback\<close>.\<close>

definition insert_finish :: "bool \<Rightarrow> handle \<Rightarrow> bool \<Rightarrow> insert_state \<Rightarrow> insert_state outcome" where
  "insert_finish ndebug tgt is_optimistic ls =
     (if ls_status ls = OK then
        (case tgt of
           InTxn \<Rightarrow>
             let (one_in_10, h1) = (if \<not> is_optimistic then rand_OneIn 10 (ls_ins ls)
                                    else (True, ls_ins ls));
                 (sp, st1) = (if \<not> is_optimistic \<and> \<not> one_in_10 then txn_prepare (ls_eng ls)
                              else (OK, ls_eng ls))
             in if \<not> ndebug \<and> sp \<noteq> OK then AssertionFailed
                else
                  let (one_in_20, h2) = rand_OneIn 20 h1;
                      (s, st2) = (if \<not> one_in_20 then txn_commit st1 else txn_rollback st1)
                  in if \<not> ndebug \<and> one_in_20 \<and> s \<noteq> OK then AssertionFailed
                     else if \<not> ndebug \<and> \<not> (is_optimistic \<or> s = OK) then AssertionFailed
                     else if s \<noteq> OK then
                       (let ue = (ls_unexpected ls \<or>
                                  (if is_optimistic then \<not> is_conflict s else s \<noteq> Expired))
                        in Returned (ls\<lparr>ls_status := s, ls_unexpected := ue, ls_ins := h2,
                                        ls_eng := (if ue then print (CommitError s) st2 else st2)\<rparr>))
                     else Returned (ls\<lparr>ls_status := s, ls_ins := h2, ls_eng := st2\<rparr>)
         | PlainDB \<Rightarrow>
             let (s, st1) = db_write (ls_batch ls) (ls_eng ls)
             in if s \<noteq> OK
                then Returned (ls\<lparr>ls_status := s, ls_unexpected := True,
                                  ls_eng := print (WriteError s) st1\<rparr>)
                else Returned (ls\<lparr>ls_status := s, ls_eng := st1\<rparr>))
      else
        (case tgt of
           InTxn \<Rightarrow>
             if ndebug then Returned ls
             else (let (sr, st1) = txn_rollback (ls_eng ls)
                   in if sr \<noteq> OK then AssertionFailed else Returned (ls\<lparr>ls_eng := st1\<rparr>))
         | PlainDB \<Rightarrow> Returned ls))"

text \<open>\<open>if (s.ok()) success_count_++; else failure_count_++; last_status_ = s;\<close>\<close>

definition count_outcome :: "status \<Rightarrow> inserter \<Rightarrow> inserter" where
  "count_outcome s h =
     (if s = OK then h\<lparr>success_count := success_count h + 1, last_status := s\<rparr>
      else h\<lparr>failure_count := failure_count h + 1, last_status := s\<rparr>)"

text \<open>\<open>DoInsert(DB* db, Transaction* txn, bool is_optimistic)\<close>: the value returned,
  the inserter and the store after the call. \<open>device\<close> is the script of the
  \<open>std::random_device\<close> of the shuffle.\<close>

definition first_state :: "inserter \<Rightarrow> store \<Rightarrow> insert_state" where
  "first_state h st = \<lparr>ls_status = OK, ls_unexpected = False, ls_batch = [], ls_ins = h, ls_eng = st\<rparr>"

definition DoInsert ::
  "bool \<Rightarrow> handle \<Rightarrow> bool \<Rightarrow> nat list \<Rightarrow> inserter \<Rightarrow> store \<Rightarrow> (bool \<times> inserter \<times> store) outcome" where
  "DoInsert ndebug tgt is_optimistic device h st =
     (let (r, h1) = rand_Next h;
          incr = r mod 100 + 1;
          set_vec = std_shuffle device [0..<num_sets h1]
      in case insert_loop ndebug tgt is_optimistic incr set_vec (first_state h1 st) of
           Returned ls \<Rightarrow>
             (case insert_finish ndebug tgt is_optimistic ls of
                Returned ls1 \<Rightarrow>
                  Returned (\<not> ls_unexpected ls1,
                            count_outcome (ls_status ls1) (ls_ins ls1), ls_eng ls1)
              | AssertionFailed \<Rightarrow> AssertionFailed
              | Thrown \<Rightarrow> Thrown
              | Crashed \<Rightarrow> Crashed)
         | AssertionFailed \<Rightarrow> AssertionFailed
         | Thrown \<Rightarrow> Thrown
         | Crashed \<Rightarrow> Crashed)"

section \<open>\<open>DoInsert\<close> on a timestamp-ordered transaction\<close>

definition insert_step_TO ::
  "bool \<Rightarrow> handle \<Rightarrow> nat \<Rightarrow> nat \<Rightarrow> insert_state \<Rightarrow> (bool \<times> insert_state) outcome" where
  "insert_step_TO ndebug tgt incr set_i ls =
     (if num_keys (ls_ins ls) = 0 then Crashed
      else
        let (r, h1) = rand_Next (ls_ins ls);
            rand_key = r mod num_keys h1
        in case DBGet_TO ndebug tgt set_i rand_key 0 (ls_unexpected ls) (ls_eng ls) of
             Returned (s, int_value, key, ue, st1) \<Rightarrow>
               if s \<noteq> OK then
                 (if \<not> is_conflict s
                  then Returned (False, ls\<lparr>ls_status := s, ls_unexpected := True, ls_ins := h1,
                                           ls_eng := print (GetError s) st1\<rparr>)
                  else Returned (False, ls\<lparr>ls_status := s, ls_unexpected := ue, ls_ins := h1,
                                           ls_eng := st1\<rparr>))
               else
                 let sum_text = ToString (u64 (int_value + incr));
                     h2 = h1\<lparr>bytes_inserted := bytes_inserted h1 + length key + length sum_text\<rparr>
                 in (case tgt of
                       InTxn \<Rightarrow>
                         let (s2, st2) = txn_put None key sum_text st1
                         in if s2 = Busy \<or> s2 = TimedOut
                            then Returned (False, ls\<lparr>ls_status := s2, ls_unexpected := ue,
                                                     ls_ins := h1, ls_eng := st2\<rparr>)
                            else if s2 \<noteq> OK
                            then Returned (True, ls\<lparr>ls_status := s2, ls_unexpected := True,
                                                    ls_ins := h2, ls_eng := print (PutError s2) st2\<rparr>)
                            else Returned (True, ls\<lparr>ls_status := s2, ls_unexpected := ue,
                                                    ls_ins := h2, ls_eng := st2\<rparr>)
                     | PlainDB \<Rightarrow>
                         Returned (True, ls\<lparr>ls_status := s, ls_unexpected := ue,
                                               ls_ins := h2, ls_eng := st1\<rparr>))
           | AssertionFailed \<Rightarrow> AssertionFailed
           | Thrown \<Rightarrow> Thrown
           | Crashed \<Rightarrow> Crashed)"

fun insert_loop_TO ::
  "bool \<Rightarrow> handle \<Rightarrow> nat \<Rightarrow> nat list \<Rightarrow> insert_state \<Rightarrow> insert_state outcome" where
  "insert_loop_TO ndebug tgt incr [] ls = Returned ls"
| "insert_loop_TO ndebug tgt incr (set_i # rest) ls =
     (case insert_step_TO ndebug tgt incr set_i ls of
        Returned (go_on, ls1) \<Rightarrow>
          if go_on then insert_loop_TO ndebug tgt incr rest ls1 else Returned ls1
      | AssertionFailed \<Rightarrow> AssertionFailed
      | Thrown \<Rightarrow> Thrown
      | Crashed \<Rightarrow> Crashed)"

text \<open>After the loop: the status of \<open>SetCommitTimeStamp\<close> is overwritten by that of
  \<open>Commit\<close> or \<open>Rollback\<close>, which is asserted and not classified.\<close>

definition insert_finish_TO :: "bool \<Rightarrow> handle \<Rightarrow> insert_state \<Rightarrow> insert_state outcome" where
  "insert_finish_TO ndebug tgt ls =
     (if ls_status ls = OK then
        (case tgt of
           InTxn \<Rightarrow>
             let h1 = (ls_ins ls)\<lparr>txn_id := txn_id (ls_ins ls) + 1\<rparr>;
                 (sts, st1) = txn_set_commit_timestamp (ls_eng ls);
                 (one_in_20, h2) = rand_OneIn 20 h1;
                 (s, st2) = (if \<not> one_in_20 then txn_commit st1 else txn_rollback st1)
             in if \<not> ndebug \<and> s \<noteq> OK then AssertionFailed
                else Returned (ls\<lparr>ls_status := s, ls_ins := h2, ls_eng := st2\<rparr>)
         | PlainDB \<Rightarrow> Returned ls)
      else
        (case tgt of
           InTxn \<Rightarrow>
             if ndebug then Returned ls
             else (let (sr, st1) = txn_rollback (ls_eng ls)
                   in if sr \<noteq> OK then AssertionFailed else Returned (ls\<lparr>ls_eng := st1\<rparr>))
         | PlainDB \<Rightarrow> Returned ls))"

text \<open>\<open>DoInsert(DB* db, TOTransaction* txn)\<close>; the shuffle draws from \<open>rand_\<close>.\<close>

definition DoInsert_TO ::
  "bool \<Rightarrow> handle \<Rightarrow> inserter \<Rightarrow> store \<Rightarrow> (bool \<times> inserter \<times> store) outcome" where
  "DoInsert_TO ndebug tgt h st =
     (let (r, h1) = rand_Next h;
          incr = r mod 100 + 1;
          (set_vec, rs) = random_shuffle [0..<num_sets h1] (rand h1);
          h2 = h1\<lparr>rand := rs\<rparr>
      in case insert_loop_TO ndebug tgt incr set_vec (first_state h2 st) of
           Returned ls \<Rightarrow>
             (case insert_finish_TO ndebug tgt ls of
                Returned ls1 \<Rightarrow>
                  Returned (\<not> ls_unexpected ls1,
                            count_outcome (ls_status ls1) (ls_ins ls1), ls_eng ls1)
              | AssertionFailed \<Rightarrow> AssertionFailed
              | Thrown \<Rightarrow> Thrown
              | Crashed \<Rightarrow> Crashed)
         | AssertionFailed \<Rightarrow> AssertionFailed
         | Thrown \<Rightarrow> Thrown
         | Crashed \<Rightarrow> Crashed)"

section \<open>\<open>RandomGenerator\<close> and \<open>DoWriteRandom\<close>\<close>

text \<open>The constructor of \<open>RandomGenerator\<close> fills \<open>data_\<close> with
  \<open>while (data_.size() < (unsigned)std::max(1048576, value_size_)) data_.append(piece);\<close>
  where \<open>piece\<close> is a string nothing was written to. The loop is given with its piece
  and its bound; \<open>None\<close> is a loop that does not end.\<close>

record random_generator =
  gen_data :: string
  gen_pos :: nat

partial_function (option) fill_data :: "nat \<Rightarrow> string \<Rightarrow> string \<Rightarrow> string option" where
  "fill_data bound piece d =
     (if length d < bound then fill_data bound piece (d @ piece) else Some d)"

definition RandomGenerator :: "random_generator option" where
  "RandomGenerator =
     (case fill_data (max 1048576 1000) [] [] of
        None \<Rightarrow> None
      | Some d \<Rightarrow> Some \<lparr>gen_data = d, gen_pos = 0\<rparr>)"

text \<open>\<open>Generate(len)\<close>: the next \<open>len\<close> bytes of the data, from the start again when
  they would run over the end.\<close>

definition Generate :: "bool \<Rightarrow> nat \<Rightarrow> random_generator \<Rightarrow> (string \<times> random_generator) outcome" where
  "Generate ndebug len g =
     (if \<not> ndebug \<and> \<not> len \<le> length (gen_data g) then AssertionFailed
      else
        let p = (if gen_pos g + len > length (gen_data g) then 0 else gen_pos g) + len
        in Returned (take len (drop (p - len) (gen_data g)), g\<lparr>gen_pos := p\<rparr>))"

text \<open>The locals of \<open>DoWriteRandom\<close> that live across the loop: \<open>s\<close>, \<open>bytes_inserted\<close>,
  \<open>bytes_read\<close> and \<open>gen\<close>.\<close>

record write_state =
  ws_status :: status
  ws_bytes_inserted :: nat
  ws_bytes_read :: nat
  ws_gen :: random_generator
  ws_ins :: inserter
  ws_eng :: store

text \<open>The three operations of one pass: a read, a delete or a put, chosen by
  \<open>rand_value\<close>. The flag is \<open>False\<close> at the \<open>break\<close> of a failed read.\<close>

definition write_random_op ::
  "bool \<Rightarrow> int \<Rightarrow> nat option \<Rightarrow> string \<Rightarrow> write_state \<Rightarrow> (bool \<times> write_state) outcome" where
  "write_random_op ndebug rand_value cf key ws =
     (let h = ws_ins ws
      in if rand_value < readpercent h then
           (let ((s, v), st1) = txn_get cf key False (ws_eng ws);
                h1 = h\<lparr>gets_done := gets_done h + 1\<rparr>
            in if s \<noteq> OK \<and> s \<noteq> NotFound
               then Returned (False, ws\<lparr>ws_status := s, ws_ins := h1,
                                        ws_eng := print (TotxnGetError s) st1\<rparr>)
               else if s = OK
               then Returned (True, ws\<lparr>ws_status := s,
                                       ws_bytes_read := ws_bytes_read ws + length key + value_size h,
                                       ws_ins := h1\<lparr>found := found h1 + 1\<rparr>, ws_eng := st1\<rparr>)
               else Returned (True, ws\<lparr>ws_status := OK, ws_ins := h1, ws_eng := st1\<rparr>))
         else if rand_value < readpercent h + deletepercent h then
           (let (s, st1) = txn_delete cf key (ws_eng ws)
            in Returned (True, ws\<lparr>ws_status := s,
                                  ws_bytes_inserted := ws_bytes_inserted ws + length key + value_size h,
                                  ws_ins := h\<lparr>deletes_done := deletes_done h + 1\<rparr>, ws_eng := st1\<rparr>))
         else
           (case Generate ndebug (value_size h) (ws_gen ws) of
              Returned (v, g1) \<Rightarrow>
                (let (s, st1) = txn_put cf key v (ws_eng ws)
                 in Returned (True, ws\<lparr>ws_status := s,
                                       ws_bytes_inserted := ws_bytes_inserted ws + length key + value_size h,
                                       ws_gen := g1,
                                       ws_ins := h\<lparr>puts_done := puts_done h + 1\<rparr>, ws_eng := st1\<rparr>))
            | AssertionFailed \<Rightarrow> AssertionFailed
            | Thrown \<Rightarrow> Thrown
            | Crashed \<Rightarrow> Crashed))"

text \<open>One pass of the loop of \<open>DoWriteRandom\<close>; \<open>num_families\<close> is \<open>handles.size()\<close>.\<close>

definition write_random_step ::
  "bool \<Rightarrow> nat \<Rightarrow> nat \<Rightarrow> write_state \<Rightarrow> (bool \<times> write_state) outcome" where
  "write_random_step ndebug num_families set_i ws =
     (if num_keys (ws_ins ws) = 0 then Crashed
      else
        let (r1, h1) = rand_Next (ws_ins ws);
            rand_value = int (r1 mod 100);
            (r2, h2) = rand_Next h1;
            rand_key = (r2 mod num_keys h2) div 10 ^ nat (conflict_level h2);
            cf = (if num_families \<noteq> 0 then Some (rand_key mod num_families) else None)
        in if \<not> ndebug \<and> \<not> set_i + 1 \<le> 9999 then AssertionFailed
           else
             case write_random_op ndebug rand_value cf (full_key set_i rand_key) (ws\<lparr>ws_ins := h2\<rparr>) of
               Returned (go_on, ws1) \<Rightarrow>
                 if \<not> go_on then Returned (False, ws1)
                 else if ws_bytes_inserted ws1 > 15000000
                 then Returned (False, ws1\<lparr>ws_eng := print OpsizeExceed (ws_eng ws1)\<rparr>)
                 else if ws_status ws1 \<noteq> OK
                 then Returned (False, ws1\<lparr>ws_eng := print (PutError (ws_status ws1)) (ws_eng ws1)\<rparr>)
                 else Returned (True, ws1)
             | AssertionFailed \<Rightarrow> AssertionFailed
             | Thrown \<Rightarrow> Thrown
             | Crashed \<Rightarrow> Crashed)"

fun write_random_loop ::
  "bool \<Rightarrow> nat \<Rightarrow> nat list \<Rightarrow> write_state \<Rightarrow> write_state outcome" where
  "write_random_loop ndebug num_families [] ws = Returned ws"
| "write_random_loop ndebug num_families (set_i # rest) ws =
     (case write_random_step ndebug num_families set_i ws of
        Returned (go_on, ws1) \<Rightarrow>
          if go_on then write_random_loop ndebug num_families rest ws1 else Returned ws1
      | AssertionFailed \<Rightarrow> AssertionFailed
      | Thrown \<Rightarrow> Thrown
      | Crashed \<Rightarrow> Crashed)"

text \<open>The sets one call works on: \<open>num_sets = rand_->Next() % num_sets_ + 1\<close> (a
  \<open>uint16_t\<close>), then \<open>iota\<close> and \<open>random_shuffle\<close> with draws of \<open>rand_\<close>.\<close>

definition write_random_sets :: "inserter \<Rightarrow> nat list \<times> inserter" where
  "write_random_sets h =
     (let (r, h1) = rand_Next h;
          k = (r mod num_sets h1 + 1) mod 65536;
          (set_vec, rs) = random_shuffle [0..<k] (rand h1)
      in (set_vec, h1\<lparr>rand := rs\<rparr>))"

text \<open>After the loop: every status but \<open>OK\<close> ends in \<open>Rollback\<close> with
  \<open>unexpected_error = true\<close>.\<close>

definition write_random_finish :: "bool \<Rightarrow> write_state \<Rightarrow> (bool \<times> inserter \<times> store) outcome" where
  "write_random_finish ndebug ws =
     (let h0 = ws_ins ws;
          h1 = (if ws_status ws = OK
                then h0\<lparr>bytes_inserted := bytes_inserted h0 + ws_bytes_inserted ws,
                        bytes_read := bytes_read h0 + ws_bytes_read ws\<rparr>
                else h0);
          (s1, h2, st1) = (if ws_status ws = OK
                           then (let (sc, st) = txn_commit (ws_eng ws)
                                 in (sc, h1\<lparr>txn_id := txn_id h1 + 1\<rparr>, st))
                           else (ws_status ws, h1, ws_eng ws))
      in if \<not> ndebug \<and> ws_status ws = OK \<and> s1 \<noteq> OK then AssertionFailed
         else if s1 = OK
         then Returned (True, h2\<lparr>success_count := success_count h2 + 1, last_status := s1\<rparr>, st1)
         else
           (let (sr, st2) = txn_rollback st1
            in if \<not> ndebug \<and> sr \<noteq> OK then AssertionFailed
               else Returned (False, h2\<lparr>failure_count := failure_count h2 + 1, last_status := sr\<rparr>, st2)))"

text \<open>The function after the construction of \<open>gen\<close>.\<close>

definition write_random_body ::
  "bool \<Rightarrow> nat \<Rightarrow> random_generator \<Rightarrow> inserter \<Rightarrow> store \<Rightarrow> (bool \<times> inserter \<times> store) outcome" where
  "write_random_body ndebug num_families gen h st =
     (if num_sets h = 0 then Crashed
      else
        let (set_vec, h1) = write_random_sets h
        in case write_random_loop ndebug num_families set_vec
                  \<lparr>ws_status = OK, ws_bytes_inserted = 0, ws_bytes_read = 0, ws_gen = gen,
                    ws_ins = h1, ws_eng = st\<rparr> of
             Returned ws \<Rightarrow> write_random_finish ndebug ws
           | AssertionFailed \<Rightarrow> AssertionFailed
           | Thrown \<Rightarrow> Thrown
           | Crashed \<Rightarrow> Crashed)"

text \<open>\<open>DoWriteRandom(handles, txn)\<close> for a transaction that is not null: its first
  statement is \<open>RandomGenerator gen;\<close>. \<open>None\<close> is a call that does not return.\<close>

definition DoWriteRandom ::
  "bool \<Rightarrow> nat \<Rightarrow> inserter \<Rightarrow> store \<Rightarrow> (bool \<times> inserter \<times> store) outcome option" where
  "DoWriteRandom ndebug num_families h st =
     (case RandomGenerator of
        None \<Rightarrow> None
      | Some gen \<Rightarrow> Some (write_random_body ndebug num_families gen h st))"

text \<open>Vocabulary for the claims about \<open>Verify\<close>: a value text that decodes to one of
  the two reserved numbers, one that decodes to a legitimate counter, and the choice of
  the path for one set.\<close>

definition is_sentinel :: "string \<Rightarrow> bool" where
  "is_sentinel v = (case stoull v of Some x \<Rightarrow> x = 0 \<or> x = ULONG_MAX | None \<Rightarrow> False)"

definition is_counter :: "string \<Rightarrow> bool" where
  "is_counter v = (case stoull v of Some x \<Rightarrow> x \<noteq> 0 \<and> x \<noteq> ULONG_MAX | None \<Rightarrow> False)"

definition uses_point_lookup :: "nat \<Rightarrow> nat list option \<Rightarrow> bool" where
  "uses_point_lookup num_keys_per_set rnd =
     (num_keys_per_set \<noteq> 0 \<and> rnd \<noteq> None \<and> fst (draw_one_in 10 (the rnd)))"

definition rnd_after_choice :: "nat \<Rightarrow> nat list option \<Rightarrow> nat list option" where
  "rnd_after_choice num_keys_per_set rnd =
     (if num_keys_per_set \<noteq> 0 \<and> rnd \<noteq> None then Some (snd (draw_one_in 10 (the rnd))) else rnd)"

section \<open>What a run shows: its calls and their classification\<close>

text \<open>The tests of the code depend on the function and on \<open>is_optimistic\<close>: the rules
  of \<open>DoInsert(DB*, Transaction*, bool)\<close> with \<open>is_optimistic\<close> false (also when it is
  called on the plain \<open>DB\<close>) and true, and those of \<open>DoInsert(DB*, TOTransaction*)\<close>.\<close>

datatype family = Pessimistic | Optimistic | TimestampOrdered

definition family_of :: "bool \<Rightarrow> family" where
  "family_of is_optimistic = (if is_optimistic then Optimistic else Pessimistic)"

text \<open>The tests the code makes on one answer, which decide whether it sets
  \<open>unexpected_error\<close>: on a read, a reserved value or a status that is neither \<open>NotFound\<close>
  nor a conflict outside an optimistic transaction; on a put, a failure other than \<open>Busy\<close>
  or \<open>TimedOut\<close> on a key read without \<open>GetForUpdate\<close>; on a commit, a failure other than
  \<open>Expired\<close>, or than a conflict in an optimistic transaction.\<close>

definition bad_read :: "family \<Rightarrow> status \<Rightarrow> string \<Rightarrow> bool" where
  "bad_read fam s v =
     (if s = OK then is_sentinel v else s \<noteq> NotFound \<and> (fam = Optimistic \<or> \<not> is_conflict s))"

definition bad_put :: "family \<Rightarrow> bool \<Rightarrow> status \<Rightarrow> bool" where
  "bad_put fam for_update s =
     (s \<noteq> OK \<and> \<not> ((fam = TimestampOrdered \<or> \<not> for_update) \<and> (s = Busy \<or> s = TimedOut)))"

definition bad_commit :: "family \<Rightarrow> status \<Rightarrow> bool" where
  "bad_commit fam s =
     (s \<noteq> OK \<and> (case fam of Pessimistic \<Rightarrow> s \<noteq> Expired | _ \<Rightarrow> \<not> is_conflict s))"

text \<open>Whether the code sets \<open>unexpected_error\<close> on a list of calls; \<open>fu\<close> is the
  \<open>get_for_update\<close> of the read before the list. The statuses of \<open>Prepare\<close> and
  \<open>SetCommitTimeStamp\<close> are not tested by the code.\<close>

fun unexpected_from :: "family \<Rightarrow> bool \<Rightarrow> call list \<Rightarrow> bool" where
  "unexpected_from fam fu [] = False"
| "unexpected_from fam fu (TxnGet cf k fu' s v # cs) = (bad_read fam s v \<or> unexpected_from fam fu' cs)"
| "unexpected_from fam fu (DbGet k s v # cs) = (bad_read fam s v \<or> unexpected_from fam False cs)"
| "unexpected_from fam fu (TxnPut cf k v s # cs) = (bad_put fam fu s \<or> unexpected_from fam fu cs)"
| "unexpected_from fam fu (TxnCommit s # cs) = (bad_commit fam s \<or> unexpected_from fam fu cs)"
| "unexpected_from fam fu (TxnRollback s # cs) = (bad_commit fam s \<or> unexpected_from fam fu cs)"
| "unexpected_from fam fu (DbWrite b s # cs) = (s \<noteq> OK \<or> unexpected_from fam fu cs)"
| "unexpected_from fam fu (c # cs) = unexpected_from fam fu cs"

definition get_call :: "handle \<Rightarrow> string \<Rightarrow> bool \<Rightarrow> status \<Rightarrow> string \<Rightarrow> call" where
  "get_call tgt k fu s v = (case tgt of InTxn \<Rightarrow> TxnGet None k fu s v | PlainDB \<Rightarrow> DbGet k s v)"


definition flag_free :: "family \<Rightarrow> call list \<Rightarrow> bool" where
  "flag_free fam cs = (\<forall>fu fu'. unexpected_from fam fu cs = unexpected_from fam fu' cs)"

text \<open>The calls of the loop: reads and puts only.\<close>

definition is_read_write :: "call \<Rightarrow> bool" where
  "is_read_write c = (case c of TxnGet cf k fu s v \<Rightarrow> True | DbGet k s v \<Rightarrow> True
                      | TxnPut cf k v s \<Rightarrow> True | _ \<Rightarrow> False)"


text \<open>What a caller of an insert function sees, and small inserters and stores to run
  the functions on.\<close>

definition returned_flag :: "(bool \<times> inserter \<times> store) outcome \<Rightarrow> bool option" where
  "returned_flag r = (case r of Returned (b, h, st) \<Rightarrow> Some b | _ \<Rightarrow> None)"

definition calls_after :: "(bool \<times> inserter \<times> store) outcome \<Rightarrow> call list" where
  "calls_after r = (case r of Returned (b, h, st) \<Rightarrow> calls st | _ \<Rightarrow> [])"

definition counts_after :: "(bool \<times> inserter \<times> store) outcome \<Rightarrow> (nat \<times> nat \<times> status) option" where
  "counts_after r =
     (case r of Returned (b, h, st) \<Rightarrow> Some (success_count h, failure_count h, last_status h)
      | _ \<Rightarrow> None)"

definition inserter_of :: "nat list \<Rightarrow> nat \<Rightarrow> nat \<Rightarrow> inserter" where
  "inserter_of rs keys sets =
     \<lparr>rand = rs, num_keys = keys, num_sets = sets, readpercent = 0, deletepercent = 0,
      conflict_level = 0, value_size = 1, txn_id = 0, success_count = 0, failure_count = 0,
      bytes_inserted = 0, bytes_read = 0, gets_done = 0, puts_done = 0, deletes_done = 0,
      found = 0, last_status = OK\<rparr>"

definition scripted :: "status list \<Rightarrow> store \<Rightarrow> store" where
  "scripted fs st = st\<lparr>faults := fs\<rparr>"


section \<open>Sequences of inserts and the sums of the sets\<close>

text \<open>A caller that runs \<open>DoInsert\<close> once for each element of a list (the handle, the
  kind of transaction and the device script of each run) and stops when a run does not
  return; and the same caller calling \<open>Verify\<close> afterwards, with the inserter's numbers
  of sets and keys.\<close>

fun run_inserts ::
  "bool \<Rightarrow> (handle \<times> bool \<times> nat list) list \<Rightarrow> inserter \<Rightarrow> store \<Rightarrow> (inserter \<times> store) option" where
  "run_inserts ndebug [] h st = Some (h, st)"
| "run_inserts ndebug ((tgt, is_optimistic, device) # txns) h st =
     (case DoInsert ndebug tgt is_optimistic device h st of
        Returned (b, h1, st1) \<Rightarrow> run_inserts ndebug txns h1 st1
      | _ \<Rightarrow> None)"

definition insert_then_verify ::
  "bool \<Rightarrow> (handle \<times> bool \<times> nat list) list \<Rightarrow> inserter \<Rightarrow> store \<Rightarrow> bool \<Rightarrow> nat list
     \<Rightarrow> nat list option \<Rightarrow> status option" where
  "insert_then_verify ndebug txns h st take_snapshot device rnd =
     (case run_inserts ndebug txns h st of
        None \<Rightarrow> None
      | Some (h1, st1) \<Rightarrow>
          returned_status (Verify ndebug (num_sets h) (num_keys h) take_snapshot device rnd st1))"


text \<open>The number a stored text stands for, the value under a key (0 when the key is
  absent), the sum the iterator sees under a prefix, and the sum of the keys
  \<open>0 .. nk - 1\<close> of a set.\<close>

definition value_of :: "string \<Rightarrow> nat" where
  "value_of v = (case stoull v of Some x \<Rightarrow> x | None \<Rightarrow> 0)"

definition val_at :: "(string \<times> string) list \<Rightarrow> string \<Rightarrow> nat" where
  "val_at es k = (case map_of es k of None \<Rightarrow> 0 | Some v \<Rightarrow> value_of v)"

definition prefix_sum :: "string \<Rightarrow> (string \<times> string) list \<Rightarrow> nat" where
  "prefix_sum p es = sum_list (map (\<lambda>e. value_of (snd e)) (filter (\<lambda>e. has_prefix (fst e) p) es))"

definition set_total :: "nat \<Rightarrow> (string \<times> string) list \<Rightarrow> nat \<Rightarrow> nat" where
  "set_total nk es s = (\<Sum>i<nk. val_at es (full_key s i))"

definition well_formed :: "nat \<Rightarrow> nat \<Rightarrow> (string \<times> string) list \<Rightarrow> bool" where
  "well_formed ns nk es =
     (sorted_wrt (<) (map fst es)
      \<and> (\<forall>e\<in>set es. (\<exists>s i. s < ns \<and> i < nk \<and> fst e = full_key s i) \<and> is_counter (snd e)))"


text \<open>The writes of a run in the order they were made, the write of one increment, and
  the stores in which all sets have the total \<open>T\<close>.\<close>

definition apply_writes :: "(string \<times> string) list \<Rightarrow> (string \<times> string) list \<Rightarrow> (string \<times> string) list" where
  "apply_writes es ws = foldl (\<lambda>es kv. put_entry (fst kv) (snd kv) es) es ws"

definition increment_of :: "(string \<times> string) list \<Rightarrow> nat \<Rightarrow> nat \<times> nat \<Rightarrow> string \<times> string" where
  "increment_of es incr pick =
     (full_key (fst pick) (snd pick),
      ToString (val_at es (full_key (fst pick) (snd pick)) + incr))"

definition consistent :: "nat \<Rightarrow> nat \<Rightarrow> nat \<Rightarrow> (string \<times> string) list \<Rightarrow> bool" where
  "consistent ns nk T es = (well_formed ns nk es \<and> (\<forall>s<ns. set_total nk es s = T))"


text \<open>What holds between two passes of the loop of \<open>DoInsert\<close> while no call fails:
  the store is as it was, and the write set (or the batch) holds one increment for
  each set visited.\<close>

definition as_pending :: "(string \<times> string) list \<Rightarrow> wop list" where
  "as_pending ws = map (\<lambda>kv. WriteOp None (fst kv) (Some (snd kv))) (rev ws)"

definition loop_inv ::
  "handle \<Rightarrow> (string \<times> string) list \<Rightarrow> nat \<Rightarrow> (nat \<times> nat) list \<Rightarrow> inserter \<Rightarrow> insert_state \<Rightarrow> bool" where
  "loop_inv tgt es incr picks h ls =
     (ls_status ls = OK \<and> \<not> ls_unexpected ls
      \<and> contents (ls_eng ls) = es \<and> faults (ls_eng ls) = []
      \<and> (case tgt of
            InTxn \<Rightarrow> pending (ls_eng ls) = as_pending (map (increment_of es incr) picks) \<and> ls_batch ls = []
          | PlainDB \<Rightarrow> pending (ls_eng ls) = [] \<and> ls_batch ls = map (increment_of es incr) picks)
      \<and> num_keys (ls_ins ls) = num_keys h \<and> num_sets (ls_ins ls) = num_sets h)"



section \<open>The status a run ends with\<close>

text \<open>What \<open>DBGet\<close> makes of the answer to a read: an absent key reads as \<open>OK\<close> with
  the value 0, a reserved value as \<open>Corruption\<close>.\<close>

definition read_status :: "status \<Rightarrow> string \<Rightarrow> status" where
  "read_status s v =
     (if s = OK then (if is_sentinel v then Corruption else OK)
      else if s = NotFound then OK else s)"

text \<open>The final status of a run, read off its calls in order: a read, a put, a commit
  and a batch write each leave their status. A rollback made while the status is \<open>OK\<close>
  is the deliberate one and leaves its own status; a rollback after a failure cleans up
  and leaves the status of the failure. \<open>Prepare\<close> and \<open>SetCommitTimeStamp\<close> are always
  followed by a commit or a rollback and leave none.\<close>

fun status_after :: "status \<Rightarrow> call \<Rightarrow> status" where
  "status_after s0 (TxnGet cf k fu s v) = read_status s v"
| "status_after s0 (DbGet k s v) = read_status s v"
| "status_after s0 (TxnPut cf k v s) = s"
| "status_after s0 (TxnDelete cf k s) = s"
| "status_after s0 (TxnCommit s) = s"
| "status_after s0 (DbWrite b s) = s"
| "status_after s0 (TxnRollback s) = (if s0 = OK then s else s0)"
| "status_after s0 c = s0"

definition final_status :: "call list \<Rightarrow> status" where
  "final_status cs = foldl status_after OK cs"

text \<open>The calls after the loop of \<open>DoInsert(DB*, Transaction*, bool)\<close>.\<close>

definition is_finish_call :: "call \<Rightarrow> bool" where
  "is_finish_call c = (case c of TxnPrepare s \<Rightarrow> True | TxnCommit s \<Rightarrow> True
                       | TxnRollback s \<Rightarrow> True | DbWrite b s \<Rightarrow> True | _ \<Rightarrow> False)"

section \<open>Unexpected errors as the specification has them\<close>











section \<open>Facts about the codec\<close>

lemma digit_cases:
  assumes "d < 10"
  shows "d = 0 \<or> d = 1 \<or> d = 2 \<or> d = 3 \<or> d = 4 \<or> d = 5 \<or> d = 6 \<or> d = 7 \<or> d = 8 \<or> d = (9::nat)"
  using assms by arith

lemma digit_val_digit_char: "d < 10 \<Longrightarrow> digit_val (digit_char d) = d"
  using digit_cases [of d] by (auto simp: digit_val_def digit_char_def)

lemma is_digit_digit_char: "d < 10 \<Longrightarrow> is_digit (digit_char d)"
  using digit_cases [of d] by (auto simp: is_digit_def digit_char_def)

lemma dec_val_snoc: "dec_val (s @ [c]) = 10 * dec_val s + digit_val c"
  by (simp add: dec_val_def)

lemma dec_val_ToString: "dec_val (ToString n) = n"
proof (induction n rule: ToString.induct)
  case (1 n)
  show ?case
  proof (cases "n < 10")
    case True
    then show ?thesis
      by (simp add: ToString.simps [of n] dec_val_def digit_val_digit_char)
  next
    case False
    then have "dec_val (ToString n) = 10 * dec_val (ToString (n div 10)) + n mod 10"
      by (simp add: ToString.simps [of n] dec_val_snoc digit_val_digit_char)
    with False "1.IH" show ?thesis by simp
  qed
qed

lemma dec_val_zeros: "dec_val (replicate k (CHR ''0'') @ s) = dec_val s"
proof -
  have "foldl (\<lambda>a c. 10 * a + digit_val c) 0 (replicate k (CHR ''0'')) = 0"
    by (induction k) (simp_all add: digit_val_def)
  then show ?thesis by (simp add: dec_val_def)
qed

lemma dec_val_zero_pad4: "dec_val (zero_pad4 n) = n"
  by (simp add: zero_pad4_def dec_val_zeros dec_val_ToString)

lemma ToString_not_Nil: "ToString n \<noteq> []"
  by (subst ToString.simps) simp

lemma length_ToString_bound: "n < 10 ^ k \<Longrightarrow> 0 < k \<Longrightarrow> length (ToString n) \<le> k"
proof (induction n arbitrary: k rule: ToString.induct)
  case (1 n)
  show ?case
  proof (cases "n < 10")
    case True
    with "1.prems" show ?thesis by (simp add: ToString.simps [of n])
  next
    case False
    with "1.prems" obtain k' where k: "k = Suc k'" by (cases k) auto
    with False "1.prems" have "0 < k'" by (cases k') auto
    moreover from k "1.prems" have "n div 10 < 10 ^ k'"
      by (simp add: less_mult_imp_div_less mult.commute)
    ultimately have "length (ToString (n div 10)) \<le> k'"
      using "1.IH" False by blast
    with False k show ?thesis by (simp add: ToString.simps [of n])
  qed
qed

lemma length_zero_pad4: "n \<le> 9999 \<Longrightarrow> length (zero_pad4 n) = 4"
proof -
  assume "n \<le> 9999"
  then have "n < 10 ^ 4" by simp
  then have "length (ToString n) \<le> 4" by (rule length_ToString_bound) simp
  then show ?thesis by (simp add: zero_pad4_def)
qed

lemma length_set_prefix: "set_i < 9999 \<Longrightarrow> length (set_prefix set_i) = 4"
  by (simp add: set_prefix_def length_zero_pad4)

lemma take4_full_key: "set_i < 9999 \<Longrightarrow> take 4 (full_key set_i ikey) = set_prefix set_i"
  by (simp add: full_key_def length_set_prefix)

lemma set_prefix_inj: "set_prefix a = set_prefix b \<Longrightarrow> a = b"
proof -
  assume "set_prefix a = set_prefix b"
  then have "dec_val (set_prefix a) = dec_val (set_prefix b)" by simp
  then show "a = b" by (simp add: set_prefix_def dec_val_zero_pad4)
qed

lemma ToString_digits: "\<forall>c\<in>set (ToString n). is_digit c"
proof (induction n rule: ToString.induct)
  case (1 n)
  show ?case
  proof (cases "n < 10")
    case True
    then show ?thesis by (simp add: ToString.simps [of n] is_digit_digit_char)
  next
    case False
    with "1.IH" show ?thesis by (simp add: ToString.simps [of n] is_digit_digit_char)
  qed
qed

lemma zero_pad4_digits: "\<forall>c\<in>set (zero_pad4 n). is_digit c"
  using ToString_digits [of n] by (auto simp: zero_pad4_def is_digit_def)

lemma drop4_full_key: "set_i < 9999 \<Longrightarrow> drop 4 (full_key set_i ikey) = ToString ikey"
  by (simp add: full_key_def length_set_prefix)

text \<open>
  Claim C7. For every set in \<open>[0, 9999)\<close> and every key, the physical key is the
  four-digit zero-padded decimal of \<open>set + 1\<close> followed by the decimal of the key: the
  prefix has four characters, every character of the key is a decimal digit, the
  prefix denotes \<open>set + 1\<close> and the rest denotes the key number. The first four
  characters give the set back (as a number, and by the prefix test of the scan, which
  accepts the key for that set and for no other), and keys of different sets are
  different.
\<close>

theorem full_key_codec:
  "set_i < 9999 \<Longrightarrow>
     full_key set_i ikey = zero_pad4 (set_i + 1) @ ToString ikey
   \<and> length (zero_pad4 (set_i + 1)) = 4
   \<and> (\<forall>c\<in>set (full_key set_i ikey). is_digit c)
   \<and> dec_val (zero_pad4 (set_i + 1)) = set_i + 1
   \<and> dec_val (drop 4 (full_key set_i ikey)) = ikey
   \<and> dec_val (take 4 (full_key set_i ikey)) - 1 = set_i
   \<and> (\<forall>set_j < 9999. has_prefix (full_key set_i ikey) (set_prefix set_j) \<longleftrightarrow> set_j = set_i)
   \<and> (\<forall>set_j jkey. set_j < 9999 \<longrightarrow> set_j \<noteq> set_i
          \<longrightarrow> full_key set_i ikey \<noteq> full_key set_j jkey)"
proof -
  assume a: "set_i < 9999"
  have 1: "full_key set_i ikey = zero_pad4 (set_i + 1) @ ToString ikey"
    by (simp add: full_key_def set_prefix_def)
  have 2: "length (zero_pad4 (set_i + 1)) = 4"
    using a by (simp add: length_zero_pad4)
  have 3: "dec_val (take 4 (full_key set_i ikey)) - 1 = set_i"
    using a by (simp add: take4_full_key set_prefix_def dec_val_zero_pad4)
  have 6: "\<forall>c\<in>set (full_key set_i ikey). is_digit c"
    using zero_pad4_digits [of "set_i + 1"] ToString_digits [of ikey]
    by (auto simp: full_key_def set_prefix_def)
  have 7: "dec_val (zero_pad4 (set_i + 1)) = set_i + 1"
    by (rule dec_val_zero_pad4)
  have 8: "dec_val (drop 4 (full_key set_i ikey)) = ikey"
    using a by (simp add: drop4_full_key dec_val_ToString)
  have 4: "has_prefix (full_key set_i ikey) (set_prefix set_j) \<longleftrightarrow> set_j = set_i" for set_j
    using a set_prefix_inj [of set_i set_j]
    by (auto simp: has_prefix_def take4_full_key)
  have 5: "full_key set_i ikey \<noteq> full_key set_j jkey"
    if "set_j < 9999" "set_j \<noteq> set_i" for set_j jkey
  proof
    assume "full_key set_i ikey = full_key set_j jkey"
    then have "take 4 (full_key set_i ikey) = take 4 (full_key set_j jkey)" by simp
    with a that have "set_prefix set_i = set_prefix set_j"
      by (simp add: take4_full_key)
    with that show False using set_prefix_inj by blast
  qed
  from 1 2 3 4 5 6 7 8 show ?thesis by blast
qed

theorem full_key_codec_witness:
  "(41::nat) < 9999 \<and> full_key 41 7 = ''00427'' \<and> dec_val (take 4 (full_key 41 7)) - 1 = 41
    \<and> has_prefix (full_key 41 7) (set_prefix 41) \<and> full_key 41 7 \<noteq> full_key 3 7"
proof -
  have h: "(41::nat) < 9999" by simp
  have k: "full_key 41 7 = ''00427''" by code_simp
  note t = full_key_codec [OF h, of 7]
  from t have "dec_val (take 4 (full_key 41 7)) - 1 = 41" by blast
  moreover from t h have "has_prefix (full_key 41 7) (set_prefix 41)" by blast
  moreover from t have "(3::nat) < 9999 \<longrightarrow> (3::nat) \<noteq> 41 \<longrightarrow> full_key 41 7 \<noteq> full_key 3 7"
    by blast
  then have "full_key 41 7 \<noteq> full_key 3 7" by simp
  ultimately show ?thesis using h k by blast
qed

section \<open>Evaluating the model on small stores\<close>

lemma set_prefix_0: "set_prefix 0 = ''0001''" by code_simp
lemma set_prefix_1: "set_prefix (Suc 0) = ''0002''" by code_simp
lemma shuffle_2: "std_shuffle [] [0..<2] = [Suc 0, 0]" 
  by (simp add: std_shuffle_def random_shuffle_def draw_uniform_def draw_def swap_at_def upt_rec)
lemmas stoull_eval = stoull_def is_space_def is_digit_def dec_val_def digit_val_def ULONG_MAX_def u64_def
lemma stoull_5: "stoull ''5'' = Some 5" by (simp add: stoull_eval)
lemma stoull_6: "stoull ''6'' = Some 6" by (simp add: stoull_eval)
lemma stoull_0: "stoull ''0'' = Some 0" by (simp add: stoull_eval)
lemma stoull_m1: "stoull ''-1'' = Some ULONG_MAX" by (simp add: stoull_eval)
lemma stoull_max: "stoull ''18446744073709551615'' = Some ULONG_MAX" by (simp add: stoull_eval)
lemma stoull_big: "stoull ''18446744073709551616'' = None" by (simp add: stoull_eval)
lemma stoull_bad: "stoull ''x'' = None" by (simp add: stoull_eval)

lemmas engine_defs = store_of_def new_iterator_def delete_iterator_def get_snapshot_def
  release_snapshot_def record_call_def print_def seek_def has_prefix_def next_fault_def answer_get_def
  db_get_def txn_get_def

lemmas verify_eval = Verify_def sum_set_def DBGet_def returned_status_def console_after_def snapshots_after_def
  draw_one_in_def draw_uniform_def draw_def u64_def ULONG_MAX_def engine_defs Let_def

lemma shuffle_1: "std_shuffle [] [0] = [0::nat]"
  by (simp add: std_shuffle_def random_shuffle_def)
lemma full_key_0_0: "full_key 0 0 = ''00010''" by code_simp
lemma full_key_1_0: "full_key (Suc 0) 0 = ''00020''" by code_simp
lemma full_key_0_1: "full_key 0 (Suc 0) = ''00011''" by code_simp
lemma full_key_1_1: "full_key (Suc 0) (Suc 0) = ''00021''" by code_simp



lemma point_lookups_2:
  "point_lookups nd set_i k 2 tot st = point_lookups nd set_i k (Suc (Suc 0)) tot st"
  by (simp add: numeral_2_eq_2)

lemma is_sentinel_0: "is_sentinel ''0''" by (simp add: is_sentinel_def stoull_0)


section \<open>Facts about \<open>Verify\<close>\<close>

lemma verify_sets_append:
  "verify_sets nd nk pre prev rnd st = Returned (Inr prev1, rnd1, st1) \<Longrightarrow>
   verify_sets nd nk (pre @ rest) prev rnd st = verify_sets nd nk rest prev1 rnd1 st1"
proof (induction pre arbitrary: prev rnd st)
  case Nil
  then show ?case by simp
next
  case (Cons x pre)
  from Cons.prems Cons.IH show ?case
    by (cases nd) (auto split: if_splits outcome.splits sum.splits option.splits prod.splits)
qed

lemma verify_sets_last:
  "verify_sets nd nk pre prev rnd st = Returned (Inr (Some (a, ta)), rnd1, st1) \<Longrightarrow>
   pre \<noteq> [] \<Longrightarrow> a = last pre"
proof (induction pre arbitrary: prev rnd st)
  case Nil
  then show ?case by simp
next
  case (Cons x pre)
  show ?case
  proof (cases "pre = []")
    case True
    with Cons.prems show ?thesis
      by (auto split: if_splits outcome.splits sum.splits option.splits prod.splits)
  next
    case False
    with Cons.prems Cons.IH show ?thesis
      by (cases nd) (auto split: if_splits outcome.splits sum.splits option.splits prod.splits)
  qed
qed



lemma iterate_set_sentinel:
  assumes "\<forall>e\<in>set good. has_prefix (fst e) p \<and>
             (\<exists>x. stoull (snd e) = Some x \<and> x \<noteq> 0 \<and> x \<noteq> ULONG_MAX)"
    and "has_prefix k p" and "stoull v = Some x" and "x = 0 \<or> x = ULONG_MAX"
  shows "iterate_set p (good @ (k, v) # others) t = Returned (Inl v)"
  using assms
proof (induction good arbitrary: t)
  case Nil
  then show ?case by auto
next
  case (Cons e good)
  obtain k' v' where e: "e = (k', v')" by (cases e)
  from Cons.prems(1) e obtain y where "has_prefix k' p" "stoull v' = Some y" "y \<noteq> 0" "y \<noteq> ULONG_MAX"
    by auto
  moreover have "iterate_set p (good @ (k, v) # others) (u64 (t + y)) = Returned (Inl v)"
    using Cons.IH Cons.prems by simp
  ultimately show ?case using e by simp
qed

lemma DBGet_plain_keeps:
  assumes "DBGet nd PlainDB set_i k fu iv ue st = Returned (s, iv', fk, ue', st')" and "faults st = []"
  shows "contents st' = contents st \<and> faults st' = []"
  using assms
  by (auto simp: DBGet_def db_get_def next_fault_def answer_get_def record_call_def print_def Let_def
      split: if_splits option.splits prod.splits)

lemma DBGet_plain_sentinel:
  assumes "faults st = []" and "map_of (contents st) (full_key set_i k) = Some v"
    and "stoull v = Some x" and "x = 0 \<or> x = ULONG_MAX" and "set_i + 1 \<le> 9999"
  shows "\<exists>st'. DBGet False PlainDB set_i k fu iv ue st = Returned (Corruption, x, full_key set_i k, True, st')"
  using assms
  by (auto simp: DBGet_def db_get_def next_fault_def answer_get_def record_call_def print_def Let_def)

lemma point_lookups_sentinel:
  assumes "faults st = []" and "k \<le> k0" and "k0 < k + n"
    and "map_of (contents st) (full_key set_i k0) = Some v"
    and "stoull v = Some x" and "x = 0 \<or> x = ULONG_MAX" and "set_i + 1 \<le> 9999"
  shows "point_lookups False set_i k n tot st \<noteq> Returned r"
  using assms
proof (induction n arbitrary: k tot st)
  case 0
  then show ?case by simp
next
  case (Suc n)
  show ?case
  proof (cases "k = k0")
    case True
    from DBGet_plain_sentinel [OF Suc.prems(1) Suc.prems(4) [folded True] Suc.prems(5,6,7), of False 0 False]
    obtain st' where "DBGet False PlainDB set_i k False 0 False st
        = Returned (Corruption, x, full_key set_i k, True, st')" by blast
    then show ?thesis by simp
  next
    case False
    show ?thesis
    proof (cases "DBGet False PlainDB set_i k False 0 False st")
      case (Returned res)
      obtain s iv fk ue st1 where res: "res = (s, iv, fk, ue, st1)" by (cases res)
      from DBGet_plain_keeps [OF Returned [unfolded res] Suc.prems(1)]
      have keep: "contents st1 = contents st" "faults st1 = []" by simp_all
      have "point_lookups False set_i (k + 1) n (u64 (tot + iv)) st1 \<noteq> Returned r"
        using Suc.IH [of st1 "k + 1" "u64 (tot + iv)"] keep Suc.prems False by simp
      with Returned res show ?thesis by simp
    qed simp_all
  qed
qed

lemma sum_set_scan_sentinel:
  assumes "\<not> uses_point_lookup nk rnd"
    and "seek (take 4 (set_prefix set_i)) (contents st) = good @ (k, v) # others"
    and "\<forall>e\<in>set good. has_prefix (fst e) (set_prefix set_i) \<and> is_counter (snd e)"
    and "has_prefix k (set_prefix set_i)" and "is_sentinel v"
  shows "sum_set nd nk set_i rnd st
           = Returned (Inl v, rnd_after_choice nk rnd, print (IterUnexpectedValue v) (new_iterator st))"
proof -
  from assms(5) obtain x where x: "stoull v = Some x" "x = 0 \<or> x = ULONG_MAX"
    by (auto simp: is_sentinel_def split: option.splits)
  have good: "\<forall>e\<in>set good. has_prefix (fst e) (set_prefix set_i) \<and>
             (\<exists>x. stoull (snd e) = Some x \<and> x \<noteq> 0 \<and> x \<noteq> ULONG_MAX)"
    using assms(3) by (auto simp: is_counter_def split: option.splits)
  have "iterate_set (set_prefix set_i) (good @ (k, v) # others) 0 = Returned (Inl v)"
    using good assms(4) x by (rule iterate_set_sentinel)
  moreover have "contents (new_iterator st) = contents st"
    by (simp add: new_iterator_def record_call_def)
  ultimately show ?thesis using assms(1,2)
    by (auto simp: sum_set_def uses_point_lookup_def rnd_after_choice_def Let_def split: prod.splits)
qed

lemma sum_set_point_sentinel:
  assumes "uses_point_lookup nk rnd" and "faults st = []" and "k0 < nk"
    and "map_of (contents st) (full_key set_i k0) = Some v" and "is_sentinel v"
    and "set_i + 1 \<le> 9999"
  shows "sum_set False nk set_i rnd st \<noteq> Returned r"
proof -
  from assms(5) obtain x where x: "stoull v = Some x" "x = 0 \<or> x = ULONG_MAX"
    by (auto simp: is_sentinel_def split: option.splits)
  have "point_lookups False set_i 0 nk 0 st \<noteq> Returned r'" for r'
    using assms(2) _ _ assms(4) x assms(6) by (rule point_lookups_sentinel) (use assms(3) in simp_all)
  then show ?thesis using assms(1)
    by (auto simp: sum_set_def uses_point_lookup_def Let_def split: prod.splits outcome.splits)
qed


text \<open>
  The scan path: a value under the prefix of the set that decodes to 0 or to
  \<open>ULONG_MAX\<close>, met after legitimate counters only, makes \<open>Verify\<close> return \<open>Corruption\<close>
  at once: the result does not depend on the sets that would follow, the iterator is
  not deleted and a snapshot is not released. The point lookup path with assertions: the
  run ends at \<open>assert(s.ok())\<close>.
\<close>

lemma Verify_sentinel:
  assumes "std_shuffle device [0..<n_sets] = pre @ set_i # post"
    and "verify_sets nd nk pre None rnd (if take_snapshot then get_snapshot st else st)
           = Returned (Inr prev1, rnd1, st1)"
    and "set_i + 1 \<le> 9999"
  shows "(\<not> uses_point_lookup nk rnd1
          \<and> seek (take 4 (set_prefix set_i)) (contents st1) = good @ (k, v) # others
          \<and> (\<forall>e\<in>set good. has_prefix (fst e) (set_prefix set_i) \<and> is_counter (snd e))
          \<and> has_prefix k (set_prefix set_i) \<and> is_sentinel v
          \<longrightarrow> Verify nd n_sets nk take_snapshot device rnd st
                = Returned (Corruption, rnd_after_choice nk rnd1,
                            print (IterUnexpectedValue v) (new_iterator st1)))
       \<and> (uses_point_lookup nk rnd1 \<and> \<not> nd \<and> faults st1 = [] \<and> k0 < nk
          \<and> map_of (contents st1) (full_key set_i k0) = Some w \<and> is_sentinel w
          \<longrightarrow> returned_status (Verify nd n_sets nk take_snapshot device rnd st) = None)"
proof -
  have app: "verify_sets nd nk (pre @ set_i # post) None rnd (if take_snapshot then get_snapshot st else st)
          = verify_sets nd nk (set_i # post) prev1 rnd1 st1"
    using assms(2) by (rule verify_sets_append)
  have A: "Verify nd n_sets nk take_snapshot device rnd st
                = Returned (Corruption, rnd_after_choice nk rnd1,
                            print (IterUnexpectedValue v) (new_iterator st1))"
    if "\<not> uses_point_lookup nk rnd1"
      "seek (take 4 (set_prefix set_i)) (contents st1) = good @ (k, v) # others"
      "\<forall>e\<in>set good. has_prefix (fst e) (set_prefix set_i) \<and> is_counter (snd e)"
      "has_prefix k (set_prefix set_i)" "is_sentinel v"
  proof -
    have "sum_set nd nk set_i rnd1 st1
           = Returned (Inl v, rnd_after_choice nk rnd1, print (IterUnexpectedValue v) (new_iterator st1))"
      using that by (rule sum_set_scan_sentinel)
    then have "verify_sets nd nk (set_i # post) prev1 rnd1 st1
           = Returned (Inl Corruption, rnd_after_choice nk rnd1, print (IterUnexpectedValue v) (new_iterator st1))"
      using assms(3) by simp
    with app assms(1) show ?thesis by (simp add: Verify_def)
  qed
  have B: "returned_status (Verify nd n_sets nk take_snapshot device rnd st) = None"
    if "uses_point_lookup nk rnd1" "\<not> nd" "faults st1 = []" "k0 < nk"
      "map_of (contents st1) (full_key set_i k0) = Some w" "is_sentinel w"
  proof -
    have "sum_set False nk set_i rnd1 st1 \<noteq> Returned r" for r
      using that(1,3,4,5,6) assms(3) by (rule sum_set_point_sentinel)
    then have "verify_sets False nk (set_i # post) prev1 rnd1 st1 \<noteq> Returned r" for r
      by (auto split: outcome.splits)
    with app that(2)
    have no: "verify_sets nd nk (std_shuffle device [0..<n_sets]) None rnd
                (if take_snapshot then get_snapshot st else st) \<noteq> Returned r" for r
      by (simp add: assms(1))
    show ?thesis
    proof (cases "verify_sets nd nk (std_shuffle device [0..<n_sets]) None rnd
                (if take_snapshot then get_snapshot st else st)")
      case (Returned r)
      with no show ?thesis by blast
    qed (simp_all add: Verify_def returned_status_def)
  qed
  from A B show ?thesis by blast
qed


lemma Verify_sentinel_example:
  "Verify False 1 1 True [] None (store_of [(''00010'', ''0'')])
     = Returned (Corruption, None,
         print (IterUnexpectedValue ''0'') (new_iterator (get_snapshot (store_of [(''00010'', ''0'')]))))
   \<and> returned_status (Verify False 1 1 False [] (Some [0]) (store_of [(''00010'', ''0'')])) = None"
proof -
  have sh: "std_shuffle [] [0..<1] = [] @ 0 # []" by (simp add: shuffle_1)
  have p1: "verify_sets False 1 [] None None
              (if True then get_snapshot (store_of [(''00010'', ''0'')]) else store_of [(''00010'', ''0'')])
            = Returned (Inr None, None, get_snapshot (store_of [(''00010'', ''0'')]))" by simp
  have p2: "verify_sets False 1 [] None (Some [0])
              (if False then get_snapshot (store_of [(''00010'', ''0'')]) else store_of [(''00010'', ''0'')])
            = Returned (Inr None, Some [0], store_of [(''00010'', ''0'')])" by simp
  have ok: "(0::nat) + 1 \<le> 9999" by simp
  have a: "\<not> uses_point_lookup 1 None
          \<and> seek (take 4 (set_prefix 0)) (contents (get_snapshot (store_of [(''00010'', ''0'')])))
              = [] @ (''00010'', ''0'') # []
          \<and> (\<forall>e\<in>set []. has_prefix (fst e) (set_prefix 0) \<and> is_counter (snd e))
          \<and> has_prefix ''00010'' (set_prefix 0) \<and> is_sentinel ''0''"
    by (simp add: uses_point_lookup_def set_prefix_0 engine_defs is_sentinel_0)
  have b: "uses_point_lookup 1 (Some [0]) \<and> \<not> False \<and> faults (store_of [(''00010'', ''0'')]) = [] \<and> (0::nat) < 1
          \<and> map_of (contents (store_of [(''00010'', ''0'')])) (full_key 0 0) = Some ''0'' \<and> is_sentinel ''0''"
    by (simp add: uses_point_lookup_def draw_one_in_def draw_uniform_def draw_def u64_def
        store_of_def full_key_0_0 is_sentinel_0)
  from Verify_sentinel [OF sh p1 ok, of "[]" "''00010''" "''0''" "[]"] a
  have "Verify False 1 1 True [] None (store_of [(''00010'', ''0'')])
     = Returned (Corruption, rnd_after_choice 1 None,
         print (IterUnexpectedValue ''0'') (new_iterator (get_snapshot (store_of [(''00010'', ''0'')]))))"
    by blast
  moreover from Verify_sentinel [OF sh p2 ok, of _ _ _ _ 0 "''0''"] b
  have "returned_status (Verify False 1 1 False [] (Some [0]) (store_of [(''00010'', ''0'')])) = None"
    by blast
  ultimately show ?thesis by (simp add: rnd_after_choice_def)
qed

text \<open>
  Claim C4 (the code breaks it). On the point lookup path a stored value that decodes
  to 0 or to \<open>ULONG_MAX\<close> does not make \<open>Verify\<close> return \<open>Corruption\<close>: the loop only
  asserts on the status of \<open>DBGet\<close>. With assertions compiled out it goes on, the
  sets visited afterwards are summed, and \<open>Verify\<close> returns \<open>OK\<close>; with assertions the
  call does not return. The scan path returns \<open>Corruption\<close> on the same stores.
\<close>

theorem point_lookup_accepts_reserved_value:
  "returned_status (Verify True 1 1 False [] (Some [0]) (store_of [(''00010'', ''0'')])) = Some OK
 \<and> returned_status (Verify True 1 1 False [] (Some [0])
      (store_of [(''00010'', ''18446744073709551615'')])) = Some OK
 \<and> returned_status (Verify True 2 2 False [] (Some [0, 0])
      (store_of [(''00010'', ''5''), (''00020'', ''0''), (''00021'', ''5'')])) = Some OK
 \<and> returned_status (Verify False 1 1 False [] (Some [0]) (store_of [(''00010'', ''0'')])) = None
 \<and> returned_status (Verify True 1 1 False [] None (store_of [(''00010'', ''0'')])) = Some Corruption
 \<and> returned_status (Verify False 1 1 False [] None (store_of [(''00010'', ''0'')])) = Some Corruption
 \<and> returned_status (Verify True 2 2 False [] None
      (store_of [(''00010'', ''5''), (''00020'', ''0''), (''00021'', ''5'')])) = Some Corruption"
  by (simp add: verify_eval shuffle_1 shuffle_2 set_prefix_0 set_prefix_1 stoull_eval full_key_0_0
      full_key_1_0 full_key_0_1 full_key_1_1 point_lookups_2)

text \<open>
  Claim C9 (the code breaks it). With \<open>take_snapshot\<close>, \<open>Verify\<close> releases the snapshot
  only at the end of the function: both early returns of \<open>Corruption\<close> (unequal totals,
  a reserved value under the iterator) leave it held, while the consistent store gives
  it back.
\<close>

theorem Verify_snapshot_leak:
  "returned_status (Verify False 2 1 True [] None (store_of [(''00010'', ''5''), (''00020'', ''6'')])) = Some Corruption
 \<and> snapshots_after (Verify False 2 1 True [] None (store_of [(''00010'', ''5''), (''00020'', ''6'')])) = Some 1
 \<and> returned_status (Verify False 1 1 True [] None (store_of [(''00010'', ''0'')])) = Some Corruption
 \<and> snapshots_after (Verify False 1 1 True [] None (store_of [(''00010'', ''0'')])) = Some 1
 \<and> returned_status (Verify False 2 1 True [] None (store_of [(''00010'', ''5''), (''00020'', ''5'')])) = Some OK
 \<and> snapshots_after (Verify False 2 1 True [] None (store_of [(''00010'', ''5''), (''00020'', ''5'')])) = Some 0"
  by (simp add: verify_eval shuffle_2 shuffle_1 set_prefix_0 set_prefix_1 stoull_eval)



section \<open>The calls of a run of \<open>DoInsert\<close>\<close>

lemma next_fault_frame:
  "next_fault st = (f, st') \<Longrightarrow> calls st' = calls st \<and> console st' = console st
     \<and> contents st' = contents st \<and> pending st' = pending st \<and> families st' = families st
     \<and> snapshots st' = snapshots st \<and> iterators st' = iterators st"
  by (auto simp: next_fault_def split: list.splits)

lemma db_get_calls:
  "db_get k st = ((s, v), st') \<Longrightarrow> calls st' = calls st @ [DbGet k s v] \<and> console st' = console st"
  by (auto simp: db_get_def record_call_def Let_def split: prod.splits dest: next_fault_frame)

lemma txn_get_calls:
  "txn_get cf k fu st = ((s, v), st') \<Longrightarrow> calls st' = calls st @ [TxnGet cf k fu s v] \<and> console st' = console st"
  by (auto simp: txn_get_def record_call_def Let_def split: prod.splits dest: next_fault_frame)

lemma raw_get_calls:
  assumes "(case tgt of InTxn \<Rightarrow> txn_get None key fu st | PlainDB \<Rightarrow> db_get key st) = ((sc, v), st1)"
  shows "calls st1 = calls st @ [get_call tgt key fu sc v] \<and> console st1 = console st"
  using assms by (cases tgt) (auto simp: get_call_def dest: db_get_calls txn_get_calls)

lemma DBGet_Returned:
  assumes "DBGet nd tgt set_i k fu iv ue st = Returned (s, iv', key, ue', st')"
  shows "\<exists>sc v. calls st' = calls st @ [get_call tgt key fu sc v]
        \<and> s = (if sc = OK then (if is_sentinel v then Corruption else OK)
                else if sc = NotFound then OK else sc)
        \<and> ue' = (ue \<or> (sc = OK \<and> is_sentinel v))
        \<and> console st' = console st @ (if sc = OK \<and> is_sentinel v then [GetUnexpectedValue v] else [])"
proof -
  obtain sc v st1 where g: "(case tgt of InTxn \<Rightarrow> txn_get None (full_key set_i k) fu st
                             | PlainDB \<Rightarrow> db_get (full_key set_i k) st) = ((sc, v), st1)"
    by (metis surj_pair)
  note c = raw_get_calls [OF g]
  from assms g have key: "key = full_key set_i k"
    by (auto simp: DBGet_def Let_def split: if_splits option.splits)
  from assms g c key have "calls st' = calls st @ [get_call tgt key fu sc v]
        \<and> s = (if sc = OK then (if is_sentinel v then Corruption else OK)
                else if sc = NotFound then OK else sc)
        \<and> ue' = (ue \<or> (sc = OK \<and> is_sentinel v))
        \<and> console st' = console st @ (if sc = OK \<and> is_sentinel v then [GetUnexpectedValue v] else [])"
    by (auto simp: DBGet_def Let_def is_sentinel_def print_def split: if_splits option.splits)
  then show ?thesis by blast
qed

lemma calls_set_family [simp]: "calls (set_family cf es st) = calls st"
  by (simp add: set_family_def split: option.splits)

lemma calls_apply_wop [simp]: "calls (apply_wop w st) = calls st"
  by (cases w; cases "case w of WriteOp cf k v \<Rightarrow> v") (auto split: wop.splits)

lemma calls_foldr_apply_wop [simp]: "calls (foldr apply_wop ws st) = calls st"
  by (induction ws) simp_all

lemma txn_put_calls: "txn_put cf k v st = (s, st') \<Longrightarrow> calls st' = calls st @ [TxnPut cf k v s] \<and> console st' = console st"
  by (auto simp: txn_put_def next_fault_def record_call_def Let_def split: prod.splits list.splits if_splits)

lemma txn_commit_calls: "txn_commit st = (s, st') \<Longrightarrow> calls st' = calls st @ [TxnCommit s]"
  by (auto simp: txn_commit_def record_call_def Let_def split: prod.splits if_splits dest: next_fault_frame)

lemma txn_rollback_calls: "txn_rollback st = (s, st') \<Longrightarrow> calls st' = calls st @ [TxnRollback s]"
  by (auto simp: txn_rollback_def next_fault_def record_call_def Let_def split: prod.splits list.splits if_splits)

lemma txn_prepare_calls: "txn_prepare st = (s, st') \<Longrightarrow> calls st' = calls st @ [TxnPrepare s]"
  by (auto simp: txn_prepare_def next_fault_def record_call_def Let_def split: prod.splits list.splits if_splits)

lemma db_write_calls: "db_write b st = (s, st') \<Longrightarrow> calls st' = calls st @ [DbWrite b s]"
  by (auto simp: db_write_def next_fault_def record_call_def Let_def split: prod.splits list.splits if_splits)

lemma print_calls [simp]: "calls (print m st) = calls st"
  by (simp add: print_def)

lemma flag_free_Nil [simp]: "flag_free fam []"
  by (simp add: flag_free_def)

lemma flag_free_get [simp]: "flag_free fam (get_call tgt k fu s v # cs)"
  by (cases tgt) (simp_all add: flag_free_def get_call_def)

lemma unexpected_from_append:
  "flag_free fam cs2 \<Longrightarrow>
   unexpected_from fam fu (cs1 @ cs2) = (unexpected_from fam fu cs1 \<or> unexpected_from fam fu cs2)"
proof (induction cs1 arbitrary: fu)
  case Nil
  then show ?case by simp
next
  case (Cons c cs1)
  then show ?case
    by (cases c) (auto simp: flag_free_def)
qed

lemma flag_free_append: "flag_free fam cs1 \<Longrightarrow> flag_free fam cs2 \<Longrightarrow> flag_free fam (cs1 @ cs2)"
  by (simp add: flag_free_def unexpected_from_append [unfolded flag_free_def]) blast

lemma family_of_not_TO [simp]: "family_of opt \<noteq> TimestampOrdered"
  by (simp add: family_of_def)

lemma family_of_Optimistic [simp]: "(family_of opt = Optimistic) = opt"
  by (simp add: family_of_def)

lemma rand_Next_frame:
  "rand_Next h = (r, h') \<Longrightarrow> success_count h' = success_count h \<and> failure_count h' = failure_count h
     \<and> num_keys h' = num_keys h \<and> num_sets h' = num_sets h"
  by (auto simp: rand_Next_def Let_def split: prod.splits)

lemma rand_OneIn_frame:
  "rand_OneIn n h = (b, h') \<Longrightarrow> success_count h' = success_count h \<and> failure_count h' = failure_count h
     \<and> num_keys h' = num_keys h \<and> num_sets h' = num_sets h"
  by (auto simp: rand_OneIn_def Let_def split: prod.splits)

lemma insert_step_trace:
  assumes "insert_step nd tgt opt incr set_i ls = Returned (go, ls')"
  shows "\<exists>cs. calls (ls_eng ls') = calls (ls_eng ls) @ cs
     \<and> flag_free (family_of opt) cs \<and> (\<forall>c\<in>set cs. is_read_write c)
     \<and> ls_unexpected ls' = (ls_unexpected ls \<or> unexpected_from (family_of opt) False cs)
     \<and> (\<not> go \<longrightarrow> ls_status ls' \<noteq> OK)
     \<and> success_count (ls_ins ls') = success_count (ls_ins ls)
     \<and> failure_count (ls_ins ls') = failure_count (ls_ins ls)
     \<and> num_keys (ls_ins ls') = num_keys (ls_ins ls)"
proof -
  from assms have nk: "num_keys (ls_ins ls) \<noteq> 0"
    by (auto simp: insert_step_def split: if_splits)
  obtain r h1 where n: "rand_Next (ls_ins ls) = (r, h1)" by (metis surj_pair)
  obtain gfu h2 where g: "(if tgt = InTxn then rand_OneIn 2 h1 else (False, h1)) = (gfu, h2)"
    by (metis surj_pair)
  have fr: "success_count h2 = success_count (ls_ins ls) \<and> failure_count h2 = failure_count (ls_ins ls)
     \<and> num_keys h2 = num_keys (ls_ins ls)"
  proof (cases "tgt = InTxn")
    case True
    with g have "rand_OneIn 2 h1 = (gfu, h2)" by simp
    from rand_OneIn_frame [OF this] rand_Next_frame [OF n] show ?thesis by simp
  next
    case False
    with g have "h2 = h1" by simp
    with rand_Next_frame [OF n] show ?thesis by simp
  qed
  from assms nk n g obtain s iv key ue st1 where
    d: "DBGet nd tgt set_i (r mod num_keys h1) gfu 0 (ls_unexpected ls) (ls_eng ls) = Returned (s, iv, key, ue, st1)"
    by (auto simp: insert_step_def Let_def split: outcome.splits)
  from DBGet_Returned [OF d] obtain sc v where
    c1: "calls st1 = calls (ls_eng ls) @ [get_call tgt key gfu sc v]"
    and s: "s = (if sc = OK then (if is_sentinel v then Corruption else OK)
                else if sc = NotFound then OK else sc)"
    and ue: "ue = (ls_unexpected ls \<or> (sc = OK \<and> is_sentinel v))"
    by blast
  have rd: "unexpected_from (family_of opt) False [get_call tgt key gfu sc v] = bad_read (family_of opt) sc v"
    by (cases tgt) (simp_all add: get_call_def)
  have ff1: "flag_free (family_of opt) [get_call tgt key gfu sc v]" by simp
  have rw1: "\<forall>c\<in>set [get_call tgt key gfu sc v]. is_read_write c"
    by (cases tgt) (simp_all add: is_read_write_def get_call_def)
  show ?thesis
  proof (cases "s = OK")
    case False
    with assms nk n g d have
      l: "ls' = (if opt \<or> \<not> is_conflict s
              then ls\<lparr>ls_status := s, ls_unexpected := True, ls_ins := h2, ls_eng := print (GetError s) st1\<rparr>
              else ls\<lparr>ls_status := s, ls_unexpected := ue, ls_ins := h2, ls_eng := st1\<rparr>)" and go: "\<not> go"
      by (auto simp: insert_step_def Let_def split: if_splits)
    from False s have br: "bad_read (family_of opt) sc v = (opt \<or> \<not> is_conflict s)"
      by (auto simp: bad_read_def is_conflict_def split: if_splits)
    from False s ue have u: "\<not> (opt \<or> \<not> is_conflict s) \<Longrightarrow> ue = ls_unexpected ls"
      by (auto simp: is_conflict_def split: if_splits)
    have "calls (ls_eng ls') = calls (ls_eng ls) @ [get_call tgt key gfu sc v]"
      using l c1 by simp
    moreover have "ls_unexpected ls' = (ls_unexpected ls \<or> unexpected_from (family_of opt) False [get_call tgt key gfu sc v])"
      using l u br rd by auto
    moreover have "ls_status ls' \<noteq> OK" using l False by simp
    moreover have "success_count (ls_ins ls') = success_count (ls_ins ls)
       \<and> failure_count (ls_ins ls') = failure_count (ls_ins ls)
       \<and> num_keys (ls_ins ls') = num_keys (ls_ins ls)" using l fr by simp
    ultimately show ?thesis using ff1 rw1 by blast
  next
    case True
    with s ue have nb: "\<not> bad_read (family_of opt) sc v" "ue = ls_unexpected ls"
      by (auto simp: bad_read_def split: if_splits)
    show ?thesis
    proof (cases tgt)
      case PlainDB
      with assms nk n g d True have
        l: "ls_eng ls' = st1" "ls_unexpected ls' = ue" "go"
          "ls_ins ls' = h2\<lparr>bytes_inserted := bytes_inserted h2 + length key + length (ToString (u64 (iv + incr)))\<rparr>"
        by (auto simp: insert_step_def Let_def)
      have "calls (ls_eng ls') = calls (ls_eng ls) @ [get_call tgt key gfu sc v]"
        using l c1 by simp
      moreover have "ls_unexpected ls' = (ls_unexpected ls \<or> unexpected_from (family_of opt) False [get_call tgt key gfu sc v])"
        using l nb rd by simp
      moreover have "success_count (ls_ins ls') = success_count (ls_ins ls)
         \<and> failure_count (ls_ins ls') = failure_count (ls_ins ls)
         \<and> num_keys (ls_ins ls') = num_keys (ls_ins ls)" using l fr by simp
      ultimately show ?thesis using ff1 rw1 l(3) by blast
    next
      case InTxn
      obtain s2 st2 where p: "txn_put None key (ToString (u64 (iv + incr))) st1 = (s2, st2)"
        by (metis surj_pair)
      note c2 = txn_put_calls [OF p]
      let ?cs = "[get_call tgt key gfu sc v, TxnPut None key (ToString (u64 (iv + incr))) s2]"
      have uf: "unexpected_from (family_of opt) False ?cs
                  = (bad_put (family_of opt) gfu s2)"
        using nb InTxn by (simp add: get_call_def)
      have bp: "bad_put (family_of opt) gfu s2 = (s2 \<noteq> OK \<and> \<not> (\<not> gfu \<and> (s2 = Busy \<or> s2 = TimedOut)))"
        by (simp add: bad_put_def)
      from assms nk n g d True InTxn p have
        r: "ls_unexpected ls' = (ue \<or> (s2 \<noteq> OK \<and> \<not> (\<not> gfu \<and> (s2 = Busy \<or> s2 = TimedOut))))"
           "calls (ls_eng ls') = calls st2"
           "\<not> go \<longrightarrow> ls_status ls' \<noteq> OK"
           "success_count (ls_ins ls') = success_count h2"
           "failure_count (ls_ins ls') = failure_count h2"
           "num_keys (ls_ins ls') = num_keys h2"
        by (auto simp: insert_step_def Let_def split: if_splits)
      have ff: "flag_free (family_of opt) ?cs" by simp
      have rw: "\<forall>c\<in>set ?cs. is_read_write c"
        using InTxn by (simp add: is_read_write_def get_call_def)
      have "calls (ls_eng ls') = calls (ls_eng ls) @ ?cs"
        using r c1 c2 by simp
      moreover have "ls_unexpected ls' = (ls_unexpected ls \<or> unexpected_from (family_of opt) False ?cs)"
        using r uf bp nb by simp
      moreover have "success_count (ls_ins ls') = success_count (ls_ins ls)
         \<and> failure_count (ls_ins ls') = failure_count (ls_ins ls)
         \<and> num_keys (ls_ins ls') = num_keys (ls_ins ls)" using r fr by simp
      ultimately show ?thesis using ff rw r(3) by blast
    qed
  qed
qed

lemma insert_loop_trace:
  assumes "insert_loop nd tgt opt incr vec ls = Returned ls'"
  shows "\<exists>cs. calls (ls_eng ls') = calls (ls_eng ls) @ cs
     \<and> flag_free (family_of opt) cs \<and> (\<forall>c\<in>set cs. is_read_write c)
     \<and> ls_unexpected ls' = (ls_unexpected ls \<or> unexpected_from (family_of opt) False cs)
     \<and> success_count (ls_ins ls') = success_count (ls_ins ls)
     \<and> failure_count (ls_ins ls') = failure_count (ls_ins ls)"
  using assms
proof (induction vec arbitrary: ls)
  case Nil
  then show ?case by (intro exI [of _ "[]"]) simp
next
  case (Cons set_i rest)
  from Cons.prems obtain go ls1 where st: "insert_step nd tgt opt incr set_i ls = Returned (go, ls1)"
    by (auto split: outcome.splits)
  from insert_step_trace [OF st] obtain cs1 where
    1: "calls (ls_eng ls1) = calls (ls_eng ls) @ cs1" "flag_free (family_of opt) cs1"
       "\<forall>c\<in>set cs1. is_read_write c"
       "ls_unexpected ls1 = (ls_unexpected ls \<or> unexpected_from (family_of opt) False cs1)"
       "success_count (ls_ins ls1) = success_count (ls_ins ls)"
       "failure_count (ls_ins ls1) = failure_count (ls_ins ls)"
    by blast
  show ?case
  proof (cases go)
    case False
    with Cons.prems st have "ls' = ls1" by simp
    with 1 show ?thesis by blast
  next
    case True
    with Cons.prems st have "insert_loop nd tgt opt incr rest ls1 = Returned ls'" by simp
    from Cons.IH [OF this] obtain cs2 where
      2: "calls (ls_eng ls') = calls (ls_eng ls1) @ cs2" "flag_free (family_of opt) cs2"
         "\<forall>c\<in>set cs2. is_read_write c"
         "ls_unexpected ls' = (ls_unexpected ls1 \<or> unexpected_from (family_of opt) False cs2)"
         "success_count (ls_ins ls') = success_count (ls_ins ls1)"
         "failure_count (ls_ins ls') = failure_count (ls_ins ls1)"
      by blast
    have "calls (ls_eng ls') = calls (ls_eng ls) @ (cs1 @ cs2)" using 1 2 by simp
    moreover have "flag_free (family_of opt) (cs1 @ cs2)" using 1 2 by (simp add: flag_free_append)
    moreover have "\<forall>c\<in>set (cs1 @ cs2). is_read_write c" using 1 2 by auto
    moreover have "ls_unexpected ls' = (ls_unexpected ls \<or> unexpected_from (family_of opt) False (cs1 @ cs2))"
      using 1 2 by (simp add: unexpected_from_append)
    moreover have "success_count (ls_ins ls') = success_count (ls_ins ls)
        \<and> failure_count (ls_ins ls') = failure_count (ls_ins ls)" using 1 2 by simp
    ultimately show ?thesis by blast
  qed
qed

text \<open>The calls after the loop: none is a read or a put.\<close>

lemma insert_finish_trace:
  assumes "insert_finish nd tgt opt ls = Returned ls'"
  shows "\<exists>cs. calls (ls_eng ls') = calls (ls_eng ls) @ cs
     \<and> flag_free (family_of opt) cs \<and> (\<forall>c\<in>set cs. \<not> is_read_write c)
     \<and> ls_unexpected ls' = (ls_unexpected ls \<or> unexpected_from (family_of opt) False cs)
     \<and> success_count (ls_ins ls') = success_count (ls_ins ls)
     \<and> failure_count (ls_ins ls') = failure_count (ls_ins ls)
     \<and> (\<not> nd \<and> \<not> opt \<longrightarrow> (\<forall>s. TxnCommit s \<in> set cs \<longrightarrow> s = OK))
     \<and> (\<forall>s. TxnCommit s \<in> set cs \<longrightarrow> ls_status ls' = s)"
proof (cases "ls_status ls = OK")
  case False
  show ?thesis
  proof (cases "tgt = InTxn \<and> \<not> nd")
    case True
    obtain sr st1 where r: "txn_rollback (ls_eng ls) = (sr, st1)" by (metis surj_pair)
    from assms False True r have l: "sr = OK" "ls' = ls\<lparr>ls_eng := st1\<rparr>"
      by (auto simp: insert_finish_def Let_def split: if_splits)
    from txn_rollback_calls [OF r] l
    have "calls (ls_eng ls') = calls (ls_eng ls) @ [TxnRollback OK]" by simp
    moreover have "flag_free (family_of opt) [TxnRollback OK]" by (simp add: flag_free_def)
    moreover have "\<not> unexpected_from (family_of opt) False [TxnRollback OK]" by (simp add: bad_commit_def)
    ultimately show ?thesis using l
      by (intro exI [of _ "[TxnRollback OK]"]) (simp add: is_read_write_def)
  next
    case F2: False
    with assms False have "ls' = ls"
      by (cases tgt) (auto simp: insert_finish_def Let_def split: if_splits)
    then show ?thesis by (intro exI [of _ "[]"]) simp
  qed
next
  case True
  show ?thesis
  proof (cases tgt)
    case PlainDB
    obtain s st1 where w: "db_write (ls_batch ls) (ls_eng ls) = (s, st1)" by (metis surj_pair)
    from assms True PlainDB w have
      l: "ls' = (if s \<noteq> OK then ls\<lparr>ls_status := s, ls_unexpected := True, ls_eng := print (WriteError s) st1\<rparr>
                 else ls\<lparr>ls_status := s, ls_eng := st1\<rparr>)"
      by (auto simp: insert_finish_def Let_def)
    from db_write_calls [OF w] l
    have "calls (ls_eng ls') = calls (ls_eng ls) @ [DbWrite (ls_batch ls) s]" by simp
    moreover have "flag_free (family_of opt) [DbWrite (ls_batch ls) s]" by (simp add: flag_free_def)
    moreover have "unexpected_from (family_of opt) False [DbWrite (ls_batch ls) s] = (s \<noteq> OK)" by simp
    ultimately show ?thesis using l
      by (intro exI [of _ "[DbWrite (ls_batch ls) s]"]) (simp add: is_read_write_def)
  next
    case InTxn
    obtain o10 h1 where a: "(if \<not> opt then rand_OneIn 10 (ls_ins ls) else (True, ls_ins ls)) = (o10, h1)"
      by (metis surj_pair)
    obtain sp st1 where p: "(if \<not> opt \<and> \<not> o10 then txn_prepare (ls_eng ls) else (OK, ls_eng ls)) = (sp, st1)"
      by (metis surj_pair)
    obtain o20 h2 where b: "rand_OneIn 20 h1 = (o20, h2)" by (metis surj_pair)
    obtain s st2 where c: "(if \<not> o20 then txn_commit st1 else txn_rollback st1) = (s, st2)"
      by (metis surj_pair)
    define pc where "pc = (if \<not> opt \<and> \<not> o10 then [TxnPrepare sp] else [])"
    define fc where "fc = (if \<not> o20 then TxnCommit s else TxnRollback s)"
    have c1: "calls st1 = calls (ls_eng ls) @ pc"
      using p by (auto simp: pc_def split: if_splits dest: txn_prepare_calls)
    have c2: "calls st2 = calls st1 @ [fc]"
      using c by (auto simp: fc_def split: if_splits dest: txn_commit_calls txn_rollback_calls)
    have fr: "success_count h2 = success_count (ls_ins ls) \<and> failure_count h2 = failure_count (ls_ins ls)"
      using a b by (auto split: if_splits dest!: rand_OneIn_frame)
    have eq: "insert_finish nd tgt opt ls =
       (if \<not> nd \<and> sp \<noteq> OK then AssertionFailed
        else if \<not> nd \<and> o20 \<and> s \<noteq> OK then AssertionFailed
        else if \<not> nd \<and> \<not> (opt \<or> s = OK) then AssertionFailed
        else if s \<noteq> OK
        then Returned (ls\<lparr>ls_status := s,
                         ls_unexpected := (ls_unexpected ls \<or> (if opt then \<not> is_conflict s else s \<noteq> Expired)),
                         ls_ins := h2,
                         ls_eng := (if (ls_unexpected ls \<or> (if opt then \<not> is_conflict s else s \<noteq> Expired))
                                    then print (CommitError s) st2 else st2)\<rparr>)
        else Returned (ls\<lparr>ls_status := s, ls_ins := h2, ls_eng := st2\<rparr>))"
      unfolding insert_finish_def using True InTxn by (simp only: a p b c Let_def if_True handle.case prod.case simp_thms)
    from assms have
      l: "ls' = (if s \<noteq> OK
                 then ls\<lparr>ls_status := s,
                         ls_unexpected := (ls_unexpected ls \<or> (if opt then \<not> is_conflict s else s \<noteq> Expired)),
                         ls_ins := h2,
                         ls_eng := (if (ls_unexpected ls \<or> (if opt then \<not> is_conflict s else s \<noteq> Expired))
                                    then print (CommitError s) st2 else st2)\<rparr>
                 else ls\<lparr>ls_status := s, ls_ins := h2, ls_eng := st2\<rparr>)"
      and dbg: "\<not> nd \<and> \<not> opt \<longrightarrow> s = OK"
      unfolding eq by (auto split: if_splits)
    have "calls (ls_eng ls') = calls (ls_eng ls) @ (pc @ [fc])"
      using l c1 c2 by simp
    moreover have uf: "unexpected_from (family_of opt) fu (pc @ [fc]) = bad_commit (family_of opt) s" for fu
      by (simp add: pc_def fc_def)
    then have "flag_free (family_of opt) (pc @ [fc])" by (simp add: flag_free_def)
    moreover have "\<forall>c\<in>set (pc @ [fc]). \<not> is_read_write c"
      by (simp add: pc_def fc_def is_read_write_def)
    moreover have "bad_commit (family_of opt) s = (s \<noteq> OK \<and> (if opt then \<not> is_conflict s else s \<noteq> Expired))"
      by (simp add: bad_commit_def family_of_def)
    with l uf have "ls_unexpected ls' = (ls_unexpected ls \<or> unexpected_from (family_of opt) False (pc @ [fc]))"
      by auto
    moreover have "success_count (ls_ins ls') = success_count (ls_ins ls)
       \<and> failure_count (ls_ins ls') = failure_count (ls_ins ls)" using l fr by simp
    moreover have "\<forall>s'. TxnCommit s' \<in> set (pc @ [fc]) \<longrightarrow> s' = s"
      by (auto simp: pc_def fc_def split: if_splits)
    moreover have "ls_status ls' = s" using l by simp
    ultimately show ?thesis using dbg by blast
  qed
qed

lemma DoInsert_trace:
  assumes "DoInsert nd tgt opt device h st = Returned (b, h', st')"
  shows "\<exists>cs1 cs2. calls st' = calls st @ cs1 @ cs2
     \<and> (\<forall>c\<in>set cs1. is_read_write c) \<and> (\<forall>c\<in>set cs2. \<not> is_read_write c)
     \<and> flag_free (family_of opt) cs2
     \<and> b = (\<not> unexpected_from (family_of opt) False (cs1 @ cs2))
     \<and> (\<not> nd \<and> \<not> opt \<longrightarrow> (\<forall>s. TxnCommit s \<in> set cs2 \<longrightarrow> s = OK))
     \<and> (\<forall>s. TxnCommit s \<in> set cs2 \<longrightarrow> last_status h' = s)
     \<and> (if last_status h' = OK
         then success_count h' = success_count h + 1 \<and> failure_count h' = failure_count h
         else failure_count h' = failure_count h + 1 \<and> success_count h' = success_count h)"
proof -
  obtain r h1 where n: "rand_Next h = (r, h1)" by (metis surj_pair)
  from assms n obtain ls where
    lp: "insert_loop nd tgt opt (r mod 100 + 1) (std_shuffle device [0..<num_sets h1]) (first_state h1 st) = Returned ls"
    by (auto simp: DoInsert_def Let_def split: outcome.splits)
  from assms n lp obtain ls1 where
    fin: "insert_finish nd tgt opt ls = Returned ls1"
    and res: "b = (\<not> ls_unexpected ls1)" "h' = count_outcome (ls_status ls1) (ls_ins ls1)" "st' = ls_eng ls1"
    by (auto simp: DoInsert_def Let_def split: outcome.splits)
  from insert_loop_trace [OF lp] obtain cs1 where
    1: "calls (ls_eng ls) = calls st @ cs1" "flag_free (family_of opt) cs1"
       "\<forall>c\<in>set cs1. is_read_write c"
       "ls_unexpected ls = unexpected_from (family_of opt) False cs1"
       "success_count (ls_ins ls) = success_count h1"
       "failure_count (ls_ins ls) = failure_count h1"
    by (auto simp: first_state_def)
  from insert_finish_trace [OF fin] obtain cs2 where
    2: "calls (ls_eng ls1) = calls (ls_eng ls) @ cs2" "flag_free (family_of opt) cs2"
       "\<forall>c\<in>set cs2. \<not> is_read_write c"
       "ls_unexpected ls1 = (ls_unexpected ls \<or> unexpected_from (family_of opt) False cs2)"
       "success_count (ls_ins ls1) = success_count (ls_ins ls)"
       "failure_count (ls_ins ls1) = failure_count (ls_ins ls)"
       "\<not> nd \<and> \<not> opt \<longrightarrow> (\<forall>s. TxnCommit s \<in> set cs2 \<longrightarrow> s = OK)"
       "\<forall>s. TxnCommit s \<in> set cs2 \<longrightarrow> ls_status ls1 = s"
    by blast
  have ls: "last_status h' = ls_status ls1" using res by (simp add: count_outcome_def)
  have f1: "calls st' = calls st @ cs1 @ cs2" using 1 2 res by simp
  have f2: "b = (\<not> unexpected_from (family_of opt) False (cs1 @ cs2))"
    using 1 2 res by (simp add: unexpected_from_append)
  have f3: "if last_status h' = OK
         then success_count h' = success_count h + 1 \<and> failure_count h' = failure_count h
         else failure_count h' = failure_count h + 1 \<and> success_count h' = success_count h"
    using 1(5,6) 2(5,6) res(2) rand_Next_frame [OF n] by (simp add: count_outcome_def)
  have f4: "\<forall>s. TxnCommit s \<in> set cs2 \<longrightarrow> last_status h' = s" using 2(8) ls by simp
  show ?thesis
    by (intro exI [of _ cs1] exI [of _ cs2] conjI) (fact f1 1(3) 2(3) 2(2) f2 2(7) f4 f3)+
qed

lemma insert_step_TO_trace:
  assumes "insert_step_TO nd tgt incr set_i ls = Returned (go, ls')"
  shows "\<exists>cs. calls (ls_eng ls') = calls (ls_eng ls) @ cs
     \<and> flag_free TimestampOrdered cs \<and> (\<forall>c\<in>set cs. is_read_write c)
     \<and> ls_unexpected ls' = (ls_unexpected ls \<or> unexpected_from TimestampOrdered False cs)
     \<and> (\<not> go \<longrightarrow> ls_status ls' \<noteq> OK)
     \<and> success_count (ls_ins ls') = success_count (ls_ins ls)
     \<and> failure_count (ls_ins ls') = failure_count (ls_ins ls)"
proof -
  from assms have nk: "num_keys (ls_ins ls) \<noteq> 0"
    by (auto simp: insert_step_TO_def split: if_splits)
  obtain r h1 where n: "rand_Next (ls_ins ls) = (r, h1)" by (metis surj_pair)
  note fr = rand_Next_frame [OF n]
  from assms nk n obtain s iv key ue st1 where
    d: "DBGet nd tgt set_i (r mod num_keys h1) False 0 (ls_unexpected ls) (ls_eng ls) = Returned (s, iv, key, ue, st1)"
    by (auto simp: insert_step_TO_def DBGet_TO_def Let_def split: outcome.splits)
  from DBGet_Returned [OF d] obtain sc v where
    c1: "calls st1 = calls (ls_eng ls) @ [get_call tgt key False sc v]"
    and s: "s = (if sc = OK then (if is_sentinel v then Corruption else OK)
                else if sc = NotFound then OK else sc)"
    and ue: "ue = (ls_unexpected ls \<or> (sc = OK \<and> is_sentinel v))"
    by blast
  have rd: "unexpected_from TimestampOrdered False [get_call tgt key False sc v] = bad_read TimestampOrdered sc v"
    by (cases tgt) (simp_all add: get_call_def)
  have ff1: "flag_free TimestampOrdered [get_call tgt key False sc v]" by simp
  have rw1: "\<forall>c\<in>set [get_call tgt key False sc v]. is_read_write c"
    by (cases tgt) (simp_all add: is_read_write_def get_call_def)
  show ?thesis
  proof (cases "s = OK")
    case False
    with assms nk n d have
      l: "ls' = (if \<not> is_conflict s
              then ls\<lparr>ls_status := s, ls_unexpected := True, ls_ins := h1, ls_eng := print (GetError s) st1\<rparr>
              else ls\<lparr>ls_status := s, ls_unexpected := ue, ls_ins := h1, ls_eng := st1\<rparr>)"
      by (auto simp: insert_step_TO_def DBGet_TO_def Let_def split: if_splits)
    from False s have br: "bad_read TimestampOrdered sc v = (\<not> is_conflict s)"
      by (auto simp: bad_read_def is_conflict_def split: if_splits)
    from False s ue have u: "is_conflict s \<Longrightarrow> ue = ls_unexpected ls"
      by (auto simp: is_conflict_def split: if_splits)
    have "calls (ls_eng ls') = calls (ls_eng ls) @ [get_call tgt key False sc v]"
      using l c1 by simp
    moreover have "ls_unexpected ls' = (ls_unexpected ls \<or> unexpected_from TimestampOrdered False [get_call tgt key False sc v])"
      using l u br rd by auto
    moreover have "ls_status ls' \<noteq> OK" using l False by simp
    moreover have "success_count (ls_ins ls') = success_count (ls_ins ls)
       \<and> failure_count (ls_ins ls') = failure_count (ls_ins ls)" using l fr by simp
    ultimately show ?thesis using ff1 rw1 by blast
  next
    case True
    with s ue have nb: "\<not> bad_read TimestampOrdered sc v" "ue = ls_unexpected ls"
      by (auto simp: bad_read_def split: if_splits)
    show ?thesis
    proof (cases tgt)
      case PlainDB
      with assms nk n d True have
        l: "ls_eng ls' = st1" "ls_unexpected ls' = ue" "go"
          "ls_ins ls' = h1\<lparr>bytes_inserted := bytes_inserted h1 + length key + length (ToString (u64 (iv + incr)))\<rparr>"
        by (auto simp: insert_step_TO_def DBGet_TO_def Let_def)
      have "calls (ls_eng ls') = calls (ls_eng ls) @ [get_call tgt key False sc v]"
        using l c1 by simp
      moreover have "ls_unexpected ls' = (ls_unexpected ls \<or> unexpected_from TimestampOrdered False [get_call tgt key False sc v])"
        using l nb rd by simp
      moreover have "success_count (ls_ins ls') = success_count (ls_ins ls)
         \<and> failure_count (ls_ins ls') = failure_count (ls_ins ls)" using l fr by simp
      ultimately show ?thesis using ff1 rw1 l(3) by blast
    next
      case InTxn
      obtain s2 st2 where p: "txn_put None key (ToString (u64 (iv + incr))) st1 = (s2, st2)"
        by (metis surj_pair)
      note c2 = txn_put_calls [OF p]
      let ?cs = "[get_call tgt key False sc v, TxnPut None key (ToString (u64 (iv + incr))) s2]"
      have uf: "unexpected_from TimestampOrdered False ?cs = (bad_put TimestampOrdered False s2)"
        using nb InTxn by (simp add: get_call_def)
      have bp: "bad_put TimestampOrdered False s2 = (s2 \<noteq> OK \<and> \<not> (s2 = Busy \<or> s2 = TimedOut))"
        by (simp add: bad_put_def)
      from assms nk n d True InTxn p have
        r: "ls_unexpected ls' = (ue \<or> (s2 \<noteq> OK \<and> \<not> (s2 = Busy \<or> s2 = TimedOut)))"
           "calls (ls_eng ls') = calls st2"
           "\<not> go \<longrightarrow> ls_status ls' \<noteq> OK"
           "success_count (ls_ins ls') = success_count h1"
           "failure_count (ls_ins ls') = failure_count h1"
        by (auto simp: insert_step_TO_def DBGet_TO_def Let_def split: if_splits)
      have ff: "flag_free TimestampOrdered ?cs" by simp
      have rw: "\<forall>c\<in>set ?cs. is_read_write c"
        using InTxn by (simp add: is_read_write_def get_call_def)
      have "calls (ls_eng ls') = calls (ls_eng ls) @ ?cs"
        using r c1 c2 by simp
      moreover have "ls_unexpected ls' = (ls_unexpected ls \<or> unexpected_from TimestampOrdered False ?cs)"
        using r uf bp nb by simp
      moreover have "success_count (ls_ins ls') = success_count (ls_ins ls)
         \<and> failure_count (ls_ins ls') = failure_count (ls_ins ls)" using r fr by simp
      ultimately show ?thesis using ff rw r(3) by blast
    qed
  qed
qed

lemma insert_loop_TO_trace:
  assumes "insert_loop_TO nd tgt incr vec ls = Returned ls'"
  shows "\<exists>cs. calls (ls_eng ls') = calls (ls_eng ls) @ cs
     \<and> flag_free TimestampOrdered cs \<and> (\<forall>c\<in>set cs. is_read_write c)
     \<and> ls_unexpected ls' = (ls_unexpected ls \<or> unexpected_from TimestampOrdered False cs)
     \<and> success_count (ls_ins ls') = success_count (ls_ins ls)
     \<and> failure_count (ls_ins ls') = failure_count (ls_ins ls)"
  using assms
proof (induction vec arbitrary: ls)
  case Nil
  then show ?case by (intro exI [of _ "[]"]) simp
next
  case (Cons set_i rest)
  from Cons.prems obtain go ls1 where st: "insert_step_TO nd tgt incr set_i ls = Returned (go, ls1)"
    by (auto split: outcome.splits)
  from insert_step_TO_trace [OF st] obtain cs1 where
    1: "calls (ls_eng ls1) = calls (ls_eng ls) @ cs1" "flag_free TimestampOrdered cs1"
       "\<forall>c\<in>set cs1. is_read_write c"
       "ls_unexpected ls1 = (ls_unexpected ls \<or> unexpected_from TimestampOrdered False cs1)"
       "success_count (ls_ins ls1) = success_count (ls_ins ls)"
       "failure_count (ls_ins ls1) = failure_count (ls_ins ls)"
    by blast
  show ?case
  proof (cases go)
    case False
    with Cons.prems st have "ls' = ls1" by simp
    with 1 show ?thesis by blast
  next
    case True
    with Cons.prems st have "insert_loop_TO nd tgt incr rest ls1 = Returned ls'" by simp
    from Cons.IH [OF this] obtain cs2 where
      2: "calls (ls_eng ls') = calls (ls_eng ls1) @ cs2" "flag_free TimestampOrdered cs2"
         "\<forall>c\<in>set cs2. is_read_write c"
         "ls_unexpected ls' = (ls_unexpected ls1 \<or> unexpected_from TimestampOrdered False cs2)"
         "success_count (ls_ins ls') = success_count (ls_ins ls1)"
         "failure_count (ls_ins ls') = failure_count (ls_ins ls1)"
      by blast
    have "calls (ls_eng ls') = calls (ls_eng ls) @ (cs1 @ cs2)" using 1 2 by simp
    moreover have "flag_free TimestampOrdered (cs1 @ cs2)" using 1 2 by (simp add: flag_free_append)
    moreover have "\<forall>c\<in>set (cs1 @ cs2). is_read_write c" using 1 2 by auto
    moreover have "ls_unexpected ls' = (ls_unexpected ls \<or> unexpected_from TimestampOrdered False (cs1 @ cs2))"
      using 1 2 by (simp add: unexpected_from_append)
    moreover have "success_count (ls_ins ls') = success_count (ls_ins ls)
        \<and> failure_count (ls_ins ls') = failure_count (ls_ins ls)" using 1 2 by simp
    ultimately show ?thesis by blast
  qed
qed

lemma txn_set_commit_timestamp_calls:
  "txn_set_commit_timestamp st = (s, st') \<Longrightarrow> calls st' = calls st @ [TxnSetCommitTimeStamp s]"
  by (auto simp: txn_set_commit_timestamp_def record_call_def Let_def split: prod.splits dest: next_fault_frame)

text \<open>After the loop of the timestamp-ordered variant the flag is not touched.\<close>

lemma insert_finish_TO_trace:
  assumes "insert_finish_TO nd tgt ls = Returned ls'"
  shows "\<exists>cs. calls (ls_eng ls') = calls (ls_eng ls) @ cs
     \<and> flag_free TimestampOrdered cs \<and> (\<forall>c\<in>set cs. \<not> is_read_write c)
     \<and> ls_unexpected ls' = ls_unexpected ls
     \<and> (unexpected_from TimestampOrdered False cs
          \<longrightarrow> (\<exists>s. (TxnCommit s \<in> set cs \<or> TxnRollback s \<in> set cs) \<and> bad_commit TimestampOrdered s))
     \<and> success_count (ls_ins ls') = success_count (ls_ins ls)
     \<and> failure_count (ls_ins ls') = failure_count (ls_ins ls)
     \<and> (\<not> nd \<longrightarrow> (\<forall>s. TxnCommit s \<in> set cs \<longrightarrow> s = OK))"
proof (cases "ls_status ls = OK")
  case False
  show ?thesis
  proof (cases "tgt = InTxn \<and> \<not> nd")
    case True
    obtain sr st1 where r: "txn_rollback (ls_eng ls) = (sr, st1)" by (metis surj_pair)
    from assms False True r have l: "sr = OK" "ls' = ls\<lparr>ls_eng := st1\<rparr>"
      by (auto simp: insert_finish_TO_def Let_def split: if_splits)
    from txn_rollback_calls [OF r] l
    have "calls (ls_eng ls') = calls (ls_eng ls) @ [TxnRollback OK]" by simp
    moreover have "flag_free TimestampOrdered [TxnRollback OK]" by (simp add: flag_free_def)
    moreover have "\<not> unexpected_from TimestampOrdered False [TxnRollback OK]" by (simp add: bad_commit_def)
    ultimately show ?thesis using l
      by (intro exI [of _ "[TxnRollback OK]"]) (simp add: is_read_write_def)
  next
    case F2: False
    with assms False have "ls' = ls"
      by (cases tgt) (auto simp: insert_finish_TO_def Let_def split: if_splits)
    then show ?thesis by (intro exI [of _ "[]"]) simp
  qed
next
  case True
  show ?thesis
  proof (cases tgt)
    case PlainDB
    with assms True have "ls' = ls" by (simp add: insert_finish_TO_def)
    then show ?thesis by (intro exI [of _ "[]"]) simp
  next
    case InTxn
    obtain sts st1 where t: "txn_set_commit_timestamp (ls_eng ls) = (sts, st1)" by (metis surj_pair)
    obtain o20 h2 where b: "rand_OneIn 20 ((ls_ins ls)\<lparr>txn_id := txn_id (ls_ins ls) + 1\<rparr>) = (o20, h2)"
      by (metis surj_pair)
    obtain s st2 where c: "(if \<not> o20 then txn_commit st1 else txn_rollback st1) = (s, st2)"
      by (metis surj_pair)
    define fc where "fc = (if \<not> o20 then TxnCommit s else TxnRollback s)"
    note c1 = txn_set_commit_timestamp_calls [OF t]
    have c2: "calls st2 = calls st1 @ [fc]"
      using c by (auto simp: fc_def split: if_splits dest: txn_commit_calls txn_rollback_calls)
    have fr: "success_count h2 = success_count (ls_ins ls) \<and> failure_count h2 = failure_count (ls_ins ls)"
      using rand_OneIn_frame [OF b] by simp
    have eq: "insert_finish_TO nd tgt ls =
       (if \<not> nd \<and> s \<noteq> OK then AssertionFailed
        else Returned (ls\<lparr>ls_status := s, ls_ins := h2, ls_eng := st2\<rparr>))"
      unfolding insert_finish_TO_def using True InTxn
      by (simp only: t b c Let_def if_True handle.case prod.case simp_thms)
    from assms have l: "ls' = ls\<lparr>ls_status := s, ls_ins := h2, ls_eng := st2\<rparr>"
      and dbg: "\<not> nd \<longrightarrow> s = OK"
      unfolding eq by (auto split: if_splits)
    let ?cs = "[TxnSetCommitTimeStamp sts, fc]"
    have "calls (ls_eng ls') = calls (ls_eng ls) @ ?cs"
      using l c1 c2 by simp
    moreover have uf: "unexpected_from TimestampOrdered fu ?cs = bad_commit TimestampOrdered s" for fu
      by (simp add: fc_def)
    then have "flag_free TimestampOrdered ?cs" by (simp add: flag_free_def)
    moreover have "\<forall>c\<in>set ?cs. \<not> is_read_write c"
      by (simp add: fc_def is_read_write_def)
    moreover have "ls_unexpected ls' = ls_unexpected ls" using l by simp
    moreover have "unexpected_from TimestampOrdered False ?cs
          \<longrightarrow> (\<exists>s. (TxnCommit s \<in> set ?cs \<or> TxnRollback s \<in> set ?cs) \<and> bad_commit TimestampOrdered s)"
      using uf by (auto simp: fc_def)
    moreover have "success_count (ls_ins ls') = success_count (ls_ins ls)
       \<and> failure_count (ls_ins ls') = failure_count (ls_ins ls)" using l fr by simp
    moreover have "\<not> nd \<longrightarrow> (\<forall>s'. TxnCommit s' \<in> set ?cs \<longrightarrow> s' = OK)"
      using dbg by (auto simp: fc_def split: if_splits)
    ultimately show ?thesis by blast
  qed
qed

lemma DoInsert_TO_trace:
  assumes "DoInsert_TO nd tgt h st = Returned (b, h', st')"
  shows "\<exists>cs1 cs2. calls st' = calls st @ cs1 @ cs2
     \<and> (\<forall>c\<in>set cs1. is_read_write c) \<and> (\<forall>c\<in>set cs2. \<not> is_read_write c)
     \<and> flag_free TimestampOrdered cs2
     \<and> b = (\<not> unexpected_from TimestampOrdered False cs1)
     \<and> (unexpected_from TimestampOrdered False cs2
          \<longrightarrow> (\<exists>s. (TxnCommit s \<in> set cs2 \<or> TxnRollback s \<in> set cs2) \<and> bad_commit TimestampOrdered s))
     \<and> (if last_status h' = OK
         then success_count h' = success_count h + 1 \<and> failure_count h' = failure_count h
         else failure_count h' = failure_count h + 1 \<and> success_count h' = success_count h)"
proof -
  obtain r h1 where n: "rand_Next h = (r, h1)" by (metis surj_pair)
  obtain set_vec rs where sh: "random_shuffle [0..<num_sets h1] (rand h1) = (set_vec, rs)"
    by (metis surj_pair)
  from assms n sh obtain ls where
    lp: "insert_loop_TO nd tgt (r mod 100 + 1) set_vec (first_state (h1\<lparr>rand := rs\<rparr>) st) = Returned ls"
    by (auto simp: DoInsert_TO_def Let_def split: outcome.splits)
  from assms n sh lp obtain ls1 where
    fin: "insert_finish_TO nd tgt ls = Returned ls1"
    and res: "b = (\<not> ls_unexpected ls1)" "h' = count_outcome (ls_status ls1) (ls_ins ls1)" "st' = ls_eng ls1"
    by (auto simp: DoInsert_TO_def Let_def split: outcome.splits)
  from insert_loop_TO_trace [OF lp] obtain cs1 where
    1: "calls (ls_eng ls) = calls st @ cs1" "flag_free TimestampOrdered cs1"
       "\<forall>c\<in>set cs1. is_read_write c"
       "ls_unexpected ls = unexpected_from TimestampOrdered False cs1"
       "success_count (ls_ins ls) = success_count h1"
       "failure_count (ls_ins ls) = failure_count h1"
    by (auto simp: first_state_def)
  from insert_finish_TO_trace [OF fin] obtain cs2 where
    2: "calls (ls_eng ls1) = calls (ls_eng ls) @ cs2" "flag_free TimestampOrdered cs2"
       "\<forall>c\<in>set cs2. \<not> is_read_write c"
       "ls_unexpected ls1 = ls_unexpected ls"
       "unexpected_from TimestampOrdered False cs2
          \<longrightarrow> (\<exists>s. (TxnCommit s \<in> set cs2 \<or> TxnRollback s \<in> set cs2) \<and> bad_commit TimestampOrdered s)"
       "success_count (ls_ins ls1) = success_count (ls_ins ls)"
       "failure_count (ls_ins ls1) = failure_count (ls_ins ls)"
    by blast
  have f1: "calls st' = calls st @ cs1 @ cs2" using 1 2 res by simp
  have f2: "b = (\<not> unexpected_from TimestampOrdered False cs1)"
    using 1 2 res by simp
  have f3: "if last_status h' = OK
         then success_count h' = success_count h + 1 \<and> failure_count h' = failure_count h
         else failure_count h' = failure_count h + 1 \<and> success_count h' = success_count h"
    using 1(5,6) 2(6,7) res(2) rand_Next_frame [OF n] by (simp add: count_outcome_def)
  show ?thesis
    by (intro exI [of _ cs1] exI [of _ cs2] conjI) (fact f1 1(3) 2(3) 2(2) f2 2(5) f3)+
qed

lemma trace_split_commit:
  assumes "cs @ [TxnCommit s] = cs1 @ cs2" and "\<forall>c\<in>set cs1. is_read_write c"
  shows "TxnCommit s \<in> set cs2"
proof (cases "cs2 = []")
  case True
  with assms(1) have "TxnCommit s \<in> set cs1" by (metis append_Nil2 in_set_conv_decomp)
  with assms(2) show ?thesis by (auto simp: is_read_write_def)
next
  case False
  then have "last (cs1 @ cs2) = last cs2" by simp
  with assms(1) have "last cs2 = TxnCommit s" by (metis last_snoc)
  with False show ?thesis by (metis last_in_set)
qed


text \<open>The status a run ends with is the final status of its calls.\<close>

lemma status_after_get [simp]:
  "status_after s0 (get_call tgt key fu sc v) = read_status sc v"
  by (cases tgt) (simp_all add: get_call_def)

lemma insert_step_status:
  assumes "insert_step nd tgt opt incr set_i ls = Returned (go, ls')"
  shows "\<exists>cs. calls (ls_eng ls') = calls (ls_eng ls) @ cs
     \<and> ls_status ls' = foldl status_after (ls_status ls) cs"
proof -
  from assms have nk: "num_keys (ls_ins ls) \<noteq> 0"
    by (auto simp: insert_step_def split: if_splits)
  obtain r h1 where n: "rand_Next (ls_ins ls) = (r, h1)" by (metis surj_pair)
  obtain gfu h2 where g: "(if tgt = InTxn then rand_OneIn 2 h1 else (False, h1)) = (gfu, h2)"
    by (metis surj_pair)
  from assms nk n g obtain s iv key ue st1 where
    d: "DBGet nd tgt set_i (r mod num_keys h1) gfu 0 (ls_unexpected ls) (ls_eng ls) = Returned (s, iv, key, ue, st1)"
    by (auto simp: insert_step_def Let_def split: outcome.splits)
  from DBGet_Returned [OF d] obtain sc v where
    c1: "calls st1 = calls (ls_eng ls) @ [get_call tgt key gfu sc v]"
    and s: "s = read_status sc v"
    unfolding read_status_def by blast
  show ?thesis
  proof (cases "s = OK")
    case False
    with assms nk n g d have
      l: "ls' = (if opt \<or> \<not> is_conflict s
              then ls\<lparr>ls_status := s, ls_unexpected := True, ls_ins := h2, ls_eng := print (GetError s) st1\<rparr>
              else ls\<lparr>ls_status := s, ls_unexpected := ue, ls_ins := h2, ls_eng := st1\<rparr>)"
      by (auto simp: insert_step_def Let_def split: if_splits)
    have "calls (ls_eng ls') = calls (ls_eng ls) @ [get_call tgt key gfu sc v]"
      using l c1 by simp
    moreover have "ls_status ls' = foldl status_after (ls_status ls) [get_call tgt key gfu sc v]"
      using l s by simp
    ultimately show ?thesis by blast
  next
    case True
    show ?thesis
    proof (cases tgt)
      case PlainDB
      with assms nk n g d True have l: "ls_eng ls' = st1" "ls_status ls' = s"
        by (auto simp: insert_step_def Let_def)
      have "calls (ls_eng ls') = calls (ls_eng ls) @ [get_call tgt key gfu sc v]"
        using l c1 by simp
      moreover have "ls_status ls' = foldl status_after (ls_status ls) [get_call tgt key gfu sc v]"
        using l s by simp
      ultimately show ?thesis by blast
    next
      case InTxn
      obtain s2 st2 where p: "txn_put None key (ToString (u64 (iv + incr))) st1 = (s2, st2)"
        by (metis surj_pair)
      note c2 = txn_put_calls [OF p]
      let ?cs = "[get_call tgt key gfu sc v, TxnPut None key (ToString (u64 (iv + incr))) s2]"
      from assms nk n g d True InTxn p have
        r: "calls (ls_eng ls') = calls st2" "ls_status ls' = s2"
        by (auto simp: insert_step_def Let_def split: if_splits)
      have "calls (ls_eng ls') = calls (ls_eng ls) @ ?cs"
        using r c1 c2 by simp
      moreover have "ls_status ls' = foldl status_after (ls_status ls) ?cs"
        using r by simp
      ultimately show ?thesis by blast
    qed
  qed
qed

lemma insert_loop_status:
  assumes "insert_loop nd tgt opt incr vec ls = Returned ls'"
  shows "\<exists>cs. calls (ls_eng ls') = calls (ls_eng ls) @ cs
     \<and> ls_status ls' = foldl status_after (ls_status ls) cs"
  using assms
proof (induction vec arbitrary: ls)
  case Nil
  then show ?case by (intro exI [of _ "[]"]) simp
next
  case (Cons set_i rest)
  from Cons.prems obtain go ls1 where st: "insert_step nd tgt opt incr set_i ls = Returned (go, ls1)"
    by (auto split: outcome.splits)
  from insert_step_status [OF st] obtain cs1 where
    1: "calls (ls_eng ls1) = calls (ls_eng ls) @ cs1"
       "ls_status ls1 = foldl status_after (ls_status ls) cs1"
    by blast
  show ?case
  proof (cases go)
    case False
    with Cons.prems st have "ls' = ls1" by simp
    with 1 show ?thesis by blast
  next
    case True
    with Cons.prems st have "insert_loop nd tgt opt incr rest ls1 = Returned ls'" by simp
    from Cons.IH [OF this] obtain cs2 where
      2: "calls (ls_eng ls') = calls (ls_eng ls1) @ cs2"
         "ls_status ls' = foldl status_after (ls_status ls1) cs2"
      by blast
    have "calls (ls_eng ls') = calls (ls_eng ls) @ (cs1 @ cs2)" using 1 2 by simp
    moreover have "ls_status ls' = foldl status_after (ls_status ls) (cs1 @ cs2)"
      using 1 2 by simp
    ultimately show ?thesis by blast
  qed
qed

lemma insert_finish_status:
  assumes "insert_finish nd tgt opt ls = Returned ls'"
  shows "\<exists>cs. calls (ls_eng ls') = calls (ls_eng ls) @ cs
     \<and> ls_status ls' = foldl status_after (ls_status ls) cs
     \<and> (\<forall>c\<in>set cs. is_finish_call c)"
proof (cases "ls_status ls = OK")
  case False
  show ?thesis
  proof (cases "tgt = InTxn \<and> \<not> nd")
    case True
    obtain sr st1 where r: "txn_rollback (ls_eng ls) = (sr, st1)" by (metis surj_pair)
    from assms False True r have l: "sr = OK" "ls' = ls\<lparr>ls_eng := st1\<rparr>"
      by (auto simp: insert_finish_def Let_def split: if_splits)
    from txn_rollback_calls [OF r] l
    have "calls (ls_eng ls') = calls (ls_eng ls) @ [TxnRollback OK]" by simp
    then show ?thesis using l False
      by (intro exI [of _ "[TxnRollback OK]"]) (simp add: is_finish_call_def)
  next
    case F2: False
    with assms False have "ls' = ls"
      by (cases tgt) (auto simp: insert_finish_def Let_def split: if_splits)
    then show ?thesis by (intro exI [of _ "[]"]) simp
  qed
next
  case True
  show ?thesis
  proof (cases tgt)
    case PlainDB
    obtain s st1 where w: "db_write (ls_batch ls) (ls_eng ls) = (s, st1)" by (metis surj_pair)
    from assms True PlainDB w have
      l: "ls' = (if s \<noteq> OK then ls\<lparr>ls_status := s, ls_unexpected := True, ls_eng := print (WriteError s) st1\<rparr>
                 else ls\<lparr>ls_status := s, ls_eng := st1\<rparr>)"
      by (auto simp: insert_finish_def Let_def)
    from db_write_calls [OF w] l
    have "calls (ls_eng ls') = calls (ls_eng ls) @ [DbWrite (ls_batch ls) s]" by simp
    then show ?thesis using l
      by (intro exI [of _ "[DbWrite (ls_batch ls) s]"]) (simp add: is_finish_call_def)
  next
    case InTxn
    obtain o10 h1 where a: "(if \<not> opt then rand_OneIn 10 (ls_ins ls) else (True, ls_ins ls)) = (o10, h1)"
      by (metis surj_pair)
    obtain sp st1 where p: "(if \<not> opt \<and> \<not> o10 then txn_prepare (ls_eng ls) else (OK, ls_eng ls)) = (sp, st1)"
      by (metis surj_pair)
    obtain o20 h2 where b: "rand_OneIn 20 h1 = (o20, h2)" by (metis surj_pair)
    obtain s st2 where c: "(if \<not> o20 then txn_commit st1 else txn_rollback st1) = (s, st2)"
      by (metis surj_pair)
    define pc where "pc = (if \<not> opt \<and> \<not> o10 then [TxnPrepare sp] else [])"
    define fc where "fc = (if \<not> o20 then TxnCommit s else TxnRollback s)"
    have c1: "calls st1 = calls (ls_eng ls) @ pc"
      using p by (auto simp: pc_def split: if_splits dest: txn_prepare_calls)
    have c2: "calls st2 = calls st1 @ [fc]"
      using c by (auto simp: fc_def split: if_splits dest: txn_commit_calls txn_rollback_calls)
    have eq: "insert_finish nd tgt opt ls =
       (if \<not> nd \<and> sp \<noteq> OK then AssertionFailed
        else if \<not> nd \<and> o20 \<and> s \<noteq> OK then AssertionFailed
        else if \<not> nd \<and> \<not> (opt \<or> s = OK) then AssertionFailed
        else if s \<noteq> OK
        then Returned (ls\<lparr>ls_status := s,
                         ls_unexpected := (ls_unexpected ls \<or> (if opt then \<not> is_conflict s else s \<noteq> Expired)),
                         ls_ins := h2,
                         ls_eng := (if (ls_unexpected ls \<or> (if opt then \<not> is_conflict s else s \<noteq> Expired))
                                    then print (CommitError s) st2 else st2)\<rparr>)
        else Returned (ls\<lparr>ls_status := s, ls_ins := h2, ls_eng := st2\<rparr>))"
      unfolding insert_finish_def using True InTxn by (simp only: a p b c Let_def if_True handle.case prod.case simp_thms)
    from assms have
      l: "ls_status ls' = s" "calls (ls_eng ls') = calls st2"
      unfolding eq by (auto split: if_splits)
    have "calls (ls_eng ls') = calls (ls_eng ls) @ (pc @ [fc])"
      using l c1 c2 by simp
    moreover have "foldl status_after (ls_status ls) (pc @ [fc]) = s"
      using True by (simp add: pc_def fc_def)
    moreover have "\<forall>c\<in>set (pc @ [fc]). is_finish_call c"
      by (simp add: pc_def fc_def is_finish_call_def)
    ultimately show ?thesis using l by metis
  qed
qed

lemma DoInsert_status:
  assumes "DoInsert nd tgt opt device h st = Returned (b, h', st')"
  shows "\<exists>cs. calls st' = calls st @ cs \<and> last_status h' = final_status cs
     \<and> (\<forall>c\<in>set cs. is_read_write c \<or> is_finish_call c)"
proof -
  obtain r h1 where n: "rand_Next h = (r, h1)" by (metis surj_pair)
  from assms n obtain ls where
    lp: "insert_loop nd tgt opt (r mod 100 + 1) (std_shuffle device [0..<num_sets h1]) (first_state h1 st) = Returned ls"
    by (auto simp: DoInsert_def Let_def split: outcome.splits)
  from assms n lp obtain ls1 where
    fin: "insert_finish nd tgt opt ls = Returned ls1"
    and res: "h' = count_outcome (ls_status ls1) (ls_ins ls1)" "st' = ls_eng ls1"
    by (auto simp: DoInsert_def Let_def split: outcome.splits)
  from insert_loop_status [OF lp] obtain cs1 where
    1: "calls (ls_eng ls) = calls st @ cs1" "ls_status ls = foldl status_after OK cs1"
    by (auto simp: first_state_def)
  from insert_loop_trace [OF lp] obtain cs1' where
    r1: "calls (ls_eng ls) = calls (ls_eng (first_state h1 st)) @ cs1'" "\<forall>c\<in>set cs1'. is_read_write c"
    by blast
  from 1(1) r1(1) have "cs1' = cs1" by (simp add: first_state_def)
  with r1(2) have rw: "\<forall>c\<in>set cs1. is_read_write c" by simp
  from insert_finish_status [OF fin] obtain cs2 where
    2: "calls (ls_eng ls1) = calls (ls_eng ls) @ cs2"
       "ls_status ls1 = foldl status_after (ls_status ls) cs2"
       "\<forall>c\<in>set cs2. is_finish_call c"
    by blast
  have "last_status h' = ls_status ls1" using res by (simp add: count_outcome_def)
  with 1 2 res rw have "calls st' = calls st @ (cs1 @ cs2) \<and> last_status h' = final_status (cs1 @ cs2)
      \<and> (\<forall>c\<in>set (cs1 @ cs2). is_read_write c \<or> is_finish_call c)"
    by (auto simp: final_status_def)
  then show ?thesis by blast
qed

lemma insert_step_TO_status:
  assumes "insert_step_TO nd tgt incr set_i ls = Returned (go, ls')"
  shows "\<exists>cs. calls (ls_eng ls') = calls (ls_eng ls) @ cs
     \<and> ls_status ls' = foldl status_after (ls_status ls) cs"
proof -
  from assms have nk: "num_keys (ls_ins ls) \<noteq> 0"
    by (auto simp: insert_step_TO_def split: if_splits)
  obtain r h1 where n: "rand_Next (ls_ins ls) = (r, h1)" by (metis surj_pair)
  from assms nk n obtain s iv key ue st1 where
    d: "DBGet nd tgt set_i (r mod num_keys h1) False 0 (ls_unexpected ls) (ls_eng ls) = Returned (s, iv, key, ue, st1)"
    by (auto simp: insert_step_TO_def DBGet_TO_def Let_def split: outcome.splits)
  from DBGet_Returned [OF d] obtain sc v where
    c1: "calls st1 = calls (ls_eng ls) @ [get_call tgt key False sc v]"
    and s: "s = read_status sc v"
    unfolding read_status_def by blast
  show ?thesis
  proof (cases "s = OK")
    case False
    with assms nk n d have
      l: "ls' = (if \<not> is_conflict s
              then ls\<lparr>ls_status := s, ls_unexpected := True, ls_ins := h1, ls_eng := print (GetError s) st1\<rparr>
              else ls\<lparr>ls_status := s, ls_unexpected := ue, ls_ins := h1, ls_eng := st1\<rparr>)"
      by (auto simp: insert_step_TO_def DBGet_TO_def Let_def split: if_splits)
    have "calls (ls_eng ls') = calls (ls_eng ls) @ [get_call tgt key False sc v]"
      using l c1 by simp
    moreover have "ls_status ls' = foldl status_after (ls_status ls) [get_call tgt key False sc v]"
      using l s by simp
    ultimately show ?thesis by blast
  next
    case True
    show ?thesis
    proof (cases tgt)
      case PlainDB
      with assms nk n d True have l: "ls_eng ls' = st1" "ls_status ls' = s"
        by (auto simp: insert_step_TO_def DBGet_TO_def Let_def)
      have "calls (ls_eng ls') = calls (ls_eng ls) @ [get_call tgt key False sc v]"
        using l c1 by simp
      moreover have "ls_status ls' = foldl status_after (ls_status ls) [get_call tgt key False sc v]"
        using l s by simp
      ultimately show ?thesis by blast
    next
      case InTxn
      obtain s2 st2 where p: "txn_put None key (ToString (u64 (iv + incr))) st1 = (s2, st2)"
        by (metis surj_pair)
      note c2 = txn_put_calls [OF p]
      let ?cs = "[get_call tgt key False sc v, TxnPut None key (ToString (u64 (iv + incr))) s2]"
      from assms nk n d True InTxn p have
        r: "calls (ls_eng ls') = calls st2" "ls_status ls' = s2"
        by (auto simp: insert_step_TO_def DBGet_TO_def Let_def split: if_splits)
      have "calls (ls_eng ls') = calls (ls_eng ls) @ ?cs"
        using r c1 c2 by simp
      moreover have "ls_status ls' = foldl status_after (ls_status ls) ?cs"
        using r by simp
      ultimately show ?thesis by blast
    qed
  qed
qed

lemma insert_loop_TO_status:
  assumes "insert_loop_TO nd tgt incr vec ls = Returned ls'"
  shows "\<exists>cs. calls (ls_eng ls') = calls (ls_eng ls) @ cs
     \<and> ls_status ls' = foldl status_after (ls_status ls) cs"
  using assms
proof (induction vec arbitrary: ls)
  case Nil
  then show ?case by (intro exI [of _ "[]"]) simp
next
  case (Cons set_i rest)
  from Cons.prems obtain go ls1 where st: "insert_step_TO nd tgt incr set_i ls = Returned (go, ls1)"
    by (auto split: outcome.splits)
  from insert_step_TO_status [OF st] obtain cs1 where
    1: "calls (ls_eng ls1) = calls (ls_eng ls) @ cs1"
       "ls_status ls1 = foldl status_after (ls_status ls) cs1"
    by blast
  show ?case
  proof (cases go)
    case False
    with Cons.prems st have "ls' = ls1" by simp
    with 1 show ?thesis by blast
  next
    case True
    with Cons.prems st have "insert_loop_TO nd tgt incr rest ls1 = Returned ls'" by simp
    from Cons.IH [OF this] obtain cs2 where
      2: "calls (ls_eng ls') = calls (ls_eng ls1) @ cs2"
         "ls_status ls' = foldl status_after (ls_status ls1) cs2"
      by blast
    have "calls (ls_eng ls') = calls (ls_eng ls) @ (cs1 @ cs2)" using 1 2 by simp
    moreover have "ls_status ls' = foldl status_after (ls_status ls) (cs1 @ cs2)"
      using 1 2 by simp
    ultimately show ?thesis by blast
  qed
qed

lemma insert_finish_TO_status:
  assumes "insert_finish_TO nd tgt ls = Returned ls'"
  shows "\<exists>cs. calls (ls_eng ls') = calls (ls_eng ls) @ cs
     \<and> ls_status ls' = foldl status_after (ls_status ls) cs"
proof (cases "ls_status ls = OK")
  case False
  show ?thesis
  proof (cases "tgt = InTxn \<and> \<not> nd")
    case True
    obtain sr st1 where r: "txn_rollback (ls_eng ls) = (sr, st1)" by (metis surj_pair)
    from assms False True r have l: "sr = OK" "ls' = ls\<lparr>ls_eng := st1\<rparr>"
      by (auto simp: insert_finish_TO_def Let_def split: if_splits)
    from txn_rollback_calls [OF r] l
    have "calls (ls_eng ls') = calls (ls_eng ls) @ [TxnRollback OK]" by simp
    then show ?thesis using l False
      by (intro exI [of _ "[TxnRollback OK]"]) simp
  next
    case F2: False
    with assms False have "ls' = ls"
      by (cases tgt) (auto simp: insert_finish_TO_def Let_def split: if_splits)
    then show ?thesis by (intro exI [of _ "[]"]) simp
  qed
next
  case True
  show ?thesis
  proof (cases tgt)
    case PlainDB
    with assms True have "ls' = ls" by (simp add: insert_finish_TO_def)
    then show ?thesis by (intro exI [of _ "[]"]) simp
  next
    case InTxn
    obtain sts st1 where t: "txn_set_commit_timestamp (ls_eng ls) = (sts, st1)" by (metis surj_pair)
    obtain o20 h2 where b: "rand_OneIn 20 ((ls_ins ls)\<lparr>txn_id := txn_id (ls_ins ls) + 1\<rparr>) = (o20, h2)"
      by (metis surj_pair)
    obtain s st2 where c: "(if \<not> o20 then txn_commit st1 else txn_rollback st1) = (s, st2)"
      by (metis surj_pair)
    define fc where "fc = (if \<not> o20 then TxnCommit s else TxnRollback s)"
    note c1 = txn_set_commit_timestamp_calls [OF t]
    have c2: "calls st2 = calls st1 @ [fc]"
      using c by (auto simp: fc_def split: if_splits dest: txn_commit_calls txn_rollback_calls)
    have eq: "insert_finish_TO nd tgt ls =
       (if \<not> nd \<and> s \<noteq> OK then AssertionFailed
        else Returned (ls\<lparr>ls_status := s, ls_ins := h2, ls_eng := st2\<rparr>))"
      unfolding insert_finish_TO_def using True InTxn
      by (simp only: t b c Let_def if_True handle.case prod.case simp_thms)
    from assms have l: "ls' = ls\<lparr>ls_status := s, ls_ins := h2, ls_eng := st2\<rparr>"
      unfolding eq by (auto split: if_splits)
    let ?cs = "[TxnSetCommitTimeStamp sts, fc]"
    have "calls (ls_eng ls') = calls (ls_eng ls) @ ?cs"
      using l c1 c2 by simp
    moreover have "ls_status ls' = foldl status_after (ls_status ls) ?cs"
      using l True by (simp add: fc_def)
    ultimately show ?thesis by blast
  qed
qed

lemma DoInsert_TO_status:
  assumes "DoInsert_TO nd tgt h st = Returned (b, h', st')"
  shows "\<exists>cs. calls st' = calls st @ cs \<and> last_status h' = final_status cs"
proof -
  obtain r h1 where n: "rand_Next h = (r, h1)" by (metis surj_pair)
  obtain set_vec rs where sh: "random_shuffle [0..<num_sets h1] (rand h1) = (set_vec, rs)"
    by (metis surj_pair)
  from assms n sh obtain ls where
    lp: "insert_loop_TO nd tgt (r mod 100 + 1) set_vec (first_state (h1\<lparr>rand := rs\<rparr>) st) = Returned ls"
    by (auto simp: DoInsert_TO_def Let_def split: outcome.splits)
  from assms n sh lp obtain ls1 where
    fin: "insert_finish_TO nd tgt ls = Returned ls1"
    and res: "h' = count_outcome (ls_status ls1) (ls_ins ls1)" "st' = ls_eng ls1"
    by (auto simp: DoInsert_TO_def Let_def split: outcome.splits)
  from insert_loop_TO_status [OF lp] obtain cs1 where
    1: "calls (ls_eng ls) = calls st @ cs1" "ls_status ls = foldl status_after OK cs1"
    by (auto simp: first_state_def)
  from insert_finish_TO_status [OF fin] obtain cs2 where
    2: "calls (ls_eng ls1) = calls (ls_eng ls) @ cs2"
       "ls_status ls1 = foldl status_after (ls_status ls) cs2"
    by blast
  have "last_status h' = ls_status ls1" using res by (simp add: count_outcome_def)
  with 1 2 res have "calls st' = calls st @ (cs1 @ cs2) \<and> last_status h' = final_status (cs1 @ cs2)"
    by (simp add: final_status_def)
  then show ?thesis by blast
qed

lemma final_status_snoc: "final_status (cs @ [c]) = status_after (final_status cs) c"
  by (simp add: final_status_def)





section \<open>Runs on small inputs\<close>

lemma ToString_1: "ToString (Suc 0) = ''1''" by code_simp
lemmas engine_eval = store_of_def scripted_def record_call_def print_def next_fault_def answer_get_def
  db_get_def txn_get_def txn_put_def txn_delete_def txn_prepare_def txn_commit_def txn_rollback_def db_write_def
  txn_set_commit_timestamp_def txn_lookup_def family_entries_def set_family_def
lemmas insert_eval = DoInsert_def insert_step_def insert_finish_def first_state_def count_outcome_def
  DoInsert_TO_def insert_step_TO_def insert_finish_TO_def DBGet_TO_def random_shuffle_def
  DBGet_def rand_Next_def rand_OneIn_def draw_one_in_def draw_uniform_def draw_def u64_def inserter_of_def
  is_conflict_def Let_def returned_flag_def calls_after_def counts_after_def


lemmas write_eval = write_random_body_def write_random_sets_def write_random_step_def
  write_random_op_def write_random_finish_def Generate_def


lemma run_expired:
  "\<exists>h' st'. DoInsert True InTxn False [] (inserter_of [0, 0, 1, 1, 1] 1 1)
       (scripted [OK, OK, OK, Expired] (store_of [])) = Returned (True, h', st')
     \<and> calls st' = calls (scripted [OK, OK, OK, Expired] (store_of []))
          @ [TxnGet None ''00010'' False NotFound [], TxnPut None ''00010'' ''1'' OK, TxnPrepare OK]
          @ [TxnCommit Expired]"
  by (simp add: insert_eval engine_eval shuffle_1 full_key_0_0 ToString_1 stoull_eval)

lemma run_ioerror:
  "\<exists>h' st'. DoInsert True InTxn False [] (inserter_of [0, 0, 1, 1, 1] 1 1)
       (scripted [OK, OK, OK, IOError] (store_of [])) = Returned (False, h', st')
     \<and> calls st' = calls (scripted [OK, OK, OK, IOError] (store_of []))
          @ [TxnGet None ''00010'' False NotFound [], TxnPut None ''00010'' ''1'' OK, TxnPrepare OK]
          @ [TxnCommit IOError]"
  by (simp add: insert_eval engine_eval shuffle_1 full_key_0_0 ToString_1 stoull_eval)



lemma fill_data_Some:
  assumes a: "fill_data bound piece d = Some y"
  shows "piece \<noteq> [] \<or> bound \<le> length d"
proof (rule fill_data.raw_induct [where P = "\<lambda>b p e z. p \<noteq> [] \<or> b \<le> length e", OF _ a])
  fix f :: "nat \<Rightarrow> string \<Rightarrow> string \<Rightarrow> string option" and b p e z
  assume IH: "\<And>b' p' e' z'. f b' p' e' = Some z' \<Longrightarrow> p' \<noteq> [] \<or> b' \<le> length e'"
    and st: "(if length e < b then f b p (e @ p) else Some e) = Some z"
  show "p \<noteq> [] \<or> b \<le> length e"
  proof (cases "length e < b")
    case True
    with st have "f b p (e @ p) = Some z" by simp
    from IH [OF this] show ?thesis by auto
  next
    case False
    then show ?thesis by simp
  qed
qed

lemma RandomGenerator_None: "RandomGenerator = None"
proof (cases "fill_data (max 1048576 1000) [] []")
  case None
  then show ?thesis by (simp add: RandomGenerator_def)
next
  case (Some y)
  from fill_data_Some [OF this] show ?thesis by simp
qed


section \<open>The claims about \<open>DoInsert\<close> and \<open>DoWriteRandom\<close>\<close>

text \<open>
  Claim C2, as amended. A run of \<open>DoInsert\<close> on a pessimistic transaction that returns
  after a failed \<open>Commit\<close>, with no unexpected error before it, is a run of a build
  without assertions, and it returns \<open>true\<close> exactly when the status of the commit is
  \<open>Expired\<close>: \<open>Expired\<close> is not classified as unexpected and every other failure is.
  In a build with assertions no such run returns: it ends at
  \<open>assert(is_optimistic || s.ok())\<close>.
\<close>

theorem pessimistic_commit_failure:
  assumes "DoInsert nd InTxn False device h st = Returned (b, h', st')"
    and "calls st' = calls st @ cs @ [TxnCommit s]"
    and "s \<noteq> OK"
    and "\<not> unexpected_from Pessimistic False cs"
  shows "nd \<and> b = (s = Expired) \<and> last_status h' = s"
proof -
  from DoInsert_trace [OF assms(1)] obtain cs1 cs2 where
    t: "calls st' = calls st @ cs1 @ cs2" "\<forall>c\<in>set cs1. is_read_write c"
       "b = (\<not> unexpected_from (family_of False) False (cs1 @ cs2))"
       "\<not> nd \<and> \<not> False \<longrightarrow> (\<forall>s. TxnCommit s \<in> set cs2 \<longrightarrow> s = OK)"
       "\<forall>s. TxnCommit s \<in> set cs2 \<longrightarrow> last_status h' = s"
    by blast
  from t(1) assms(2) have eq: "cs @ [TxnCommit s] = cs1 @ cs2" by simp
  from trace_split_commit [OF eq t(2)] have m: "TxnCommit s \<in> set cs2" .
  with t(4) assms(3) have nd: nd by blast
  from m t(5) have ls: "last_status h' = s" by blast
  have "flag_free Pessimistic [TxnCommit s]" by (simp add: flag_free_def)
  then have "unexpected_from Pessimistic False (cs @ [TxnCommit s])
               = (unexpected_from Pessimistic False cs \<or> bad_commit Pessimistic s)"
    by (simp add: unexpected_from_append)
  with t(3) eq assms(3,4) have "b = (s = Expired)"
    by (simp add: family_of_def bad_commit_def)
  with nd ls show ?thesis by simp
qed


theorem pessimistic_commit_failure_witness:
  "returned_flag (DoInsert True InTxn False [] (inserter_of [0, 0, 1, 1, 1] 1 1)
       (scripted [OK, OK, OK, Expired] (store_of []))) = Some (Expired = Expired)
   \<and> returned_flag (DoInsert True InTxn False [] (inserter_of [0, 0, 1, 1, 1] 1 1)
       (scripted [OK, OK, OK, IOError] (store_of []))) = Some (IOError = Expired)"
proof -
  have u: "\<not> unexpected_from Pessimistic False
             [TxnGet None ''00010'' False NotFound [], TxnPut None ''00010'' ''1'' OK, TxnPrepare OK]"
    by (simp add: bad_read_def bad_put_def)
  from run_expired obtain h' st' where
    1: "DoInsert True InTxn False [] (inserter_of [0, 0, 1, 1, 1] 1 1)
       (scripted [OK, OK, OK, Expired] (store_of [])) = Returned (True, h', st')"
    and 2: "calls st' = calls (scripted [OK, OK, OK, Expired] (store_of []))
          @ [TxnGet None ''00010'' False NotFound [], TxnPut None ''00010'' ''1'' OK, TxnPrepare OK]
          @ [TxnCommit Expired]" by blast
  have 3: "Expired \<noteq> OK" by simp
  from pessimistic_commit_failure [OF 1 2 3 u] 1
  have a: "returned_flag (DoInsert True InTxn False [] (inserter_of [0, 0, 1, 1, 1] 1 1)
       (scripted [OK, OK, OK, Expired] (store_of []))) = Some (Expired = Expired)"
    by (simp add: returned_flag_def)
  from run_ioerror obtain h'' st'' where
    4: "DoInsert True InTxn False [] (inserter_of [0, 0, 1, 1, 1] 1 1)
       (scripted [OK, OK, OK, IOError] (store_of [])) = Returned (False, h'', st'')"
    and 5: "calls st'' = calls (scripted [OK, OK, OK, IOError] (store_of []))
          @ [TxnGet None ''00010'' False NotFound [], TxnPut None ''00010'' ''1'' OK, TxnPrepare OK]
          @ [TxnCommit IOError]" by blast
  have 6: "IOError \<noteq> OK" by simp
  from pessimistic_commit_failure [OF 4 5 6 u] 4
  have b: "returned_flag (DoInsert True InTxn False [] (inserter_of [0, 0, 1, 1, 1] 1 1)
       (scripted [OK, OK, OK, IOError] (store_of []))) = Some (IOError = Expired)"
    by (simp add: returned_flag_def)
  from a b show ?thesis by blast
qed


text \<open>The claim as stated fails in a build with assertions: a commit that fails with
  another status than \<open>Expired\<close> ends the run at the assertion, and nothing is
  classified or returned.\<close>

theorem commit_failure_with_assertions:
  "returned_flag (DoInsert False InTxn False [] (inserter_of [0, 0, 1, 1, 1] 1 1)
       (scripted [OK, OK, OK, IOError] (store_of []))) = None
   \<and> calls_after (DoInsert True InTxn False [] (inserter_of [0, 0, 1, 1, 1] 1 1)
       (scripted [OK, OK, OK, IOError] (store_of [])))
      = [TxnGet None ''00010'' False NotFound [], TxnPut None ''00010'' ''1'' OK, TxnPrepare OK,
         TxnCommit IOError]"
  by (simp add: insert_eval engine_eval shuffle_1 full_key_0_0 ToString_1 stoull_eval)







text \<open>
  Claim C6 (the code breaks it). With two sets, the first \<open>Put\<close> fails with a status
  that is not expected: the loop goes on to the \<open>Get\<close> and the \<open>Put\<close> of the next set,
  and the transaction, which holds the increment of one set only, is prepared and
  committed; the run is counted as a success and returns \<open>false\<close>.
\<close>

theorem unexpected_put_does_not_stop_the_loop:
  "calls_after (DoInsert False InTxn False [] (inserter_of [0, 0, 1, 0, 1, 1, 1] 1 2)
       (scripted [OK, IOError] (store_of [])))
     = [TxnGet None ''00020'' False NotFound [], TxnPut None ''00020'' ''1'' IOError,
        TxnGet None ''00010'' False NotFound [], TxnPut None ''00010'' ''1'' OK,
        TxnPrepare OK, TxnCommit OK]
   \<and> returned_flag (DoInsert False InTxn False [] (inserter_of [0, 0, 1, 0, 1, 1, 1] 1 2)
       (scripted [OK, IOError] (store_of []))) = Some False
   \<and> counts_after (DoInsert False InTxn False [] (inserter_of [0, 0, 1, 0, 1, 1, 1] 1 2)
       (scripted [OK, IOError] (store_of []))) = Some (1, 0, OK)"
  by (simp add: insert_eval engine_eval shuffle_2 full_key_0_0 full_key_1_0 ToString_1 stoull_eval)


text \<open>
  Claim C8, as amended. Every call of \<open>DoInsert\<close>, on a transaction, on the plain \<open>DB\<close>
  or on a timestamp-ordered transaction, that returns adds one to exactly one of
  \<open>success_count\<close> and \<open>failure_count\<close>, chosen by the final status of the run, which is
  also left in \<open>last_status\<close>: \<open>failure_count\<close> when it is not \<open>OK\<close> (the read or put that
  ended the loop failed, or the commit or the batch write did), \<open>success_count\<close> when it
  is \<open>OK\<close>. The deliberate rollback that succeeds leaves \<open>OK\<close> and is counted as a success.
\<close>

theorem DoInsert_counts_one:
  "DoInsert nd tgt opt device h st = Returned (b, h', st')
     \<or> DoInsert_TO nd tgt h st = Returned (b, h', st') \<Longrightarrow>
   \<exists>cs. calls st' = calls st @ cs \<and> last_status h' = final_status cs
     \<and> (if final_status cs = OK
         then success_count h' = success_count h + 1 \<and> failure_count h' = failure_count h
         else failure_count h' = failure_count h + 1 \<and> success_count h' = success_count h)
     \<and> (\<forall>cs0. cs = cs0 @ [TxnRollback OK] \<and> final_status cs0 = OK
           \<longrightarrow> success_count h' = success_count h + 1)"
proof (erule disjE)
  assume a: "DoInsert nd tgt opt device h st = Returned (b, h', st')"
  from DoInsert_status [OF a] obtain cs where
    s: "calls st' = calls st @ cs" "last_status h' = final_status cs" by blast
  from DoInsert_trace [OF a] have
    c: "if last_status h' = OK
         then success_count h' = success_count h + 1 \<and> failure_count h' = failure_count h
         else failure_count h' = failure_count h + 1 \<and> success_count h' = success_count h"
    by blast
  have r: "success_count h' = success_count h + 1"
    if "cs = cs0 @ [TxnRollback OK] \<and> final_status cs0 = OK" for cs0
    using that c s(2) by (simp add: final_status_snoc)
  from s c r show ?thesis by auto
next
  assume a: "DoInsert_TO nd tgt h st = Returned (b, h', st')"
  from DoInsert_TO_status [OF a] obtain cs where
    s: "calls st' = calls st @ cs" "last_status h' = final_status cs" by blast
  from DoInsert_TO_trace [OF a] have
    c: "if last_status h' = OK
         then success_count h' = success_count h + 1 \<and> failure_count h' = failure_count h
         else failure_count h' = failure_count h + 1 \<and> success_count h' = success_count h"
    by blast
  have r: "success_count h' = success_count h + 1"
    if "cs = cs0 @ [TxnRollback OK] \<and> final_status cs0 = OK" for cs0
    using that c s(2) by (simp add: final_status_snoc)
  from s c r show ?thesis by auto
qed

lemma run_rollback:
  "\<exists>b h' st'. DoInsert False InTxn False [] (inserter_of [0, 0, 1, 1, 0] 1 1) (store_of [])
       = Returned (b, h', st')
     \<and> calls st' = calls (store_of [])
          @ [TxnGet None ''00010'' False NotFound [], TxnPut None ''00010'' ''1'' OK, TxnPrepare OK]
          @ [TxnRollback OK]
     \<and> failure_count h' = 0"
  by (simp add: insert_eval engine_eval shuffle_1 full_key_0_0 ToString_1 stoull_eval) blast

theorem DoInsert_counts_one_witness:
  "counts_after (DoInsert True InTxn False [] (inserter_of [0, 0, 1, 1, 1] 1 1)
       (scripted [OK, OK, OK, Expired] (store_of []))) = Some (0, 1, Expired)
   \<and> final_status [TxnGet None ''00010'' False NotFound [], TxnPut None ''00010'' ''1'' OK,
        TxnPrepare OK, TxnCommit Expired] = Expired
   \<and> counts_after (DoInsert False InTxn False [] (inserter_of [0, 0, 1, 1, 0] 1 1) (store_of []))
       = Some (1, 0, OK)
   \<and> final_status [TxnGet None ''00010'' False NotFound [], TxnPut None ''00010'' ''1'' OK,
        TxnPrepare OK, TxnRollback OK] = OK"
proof -
  from run_expired obtain h' st' where
    1: "DoInsert True InTxn False [] (inserter_of [0, 0, 1, 1, 1] 1 1)
       (scripted [OK, OK, OK, Expired] (store_of [])) = Returned (True, h', st')"
    and 2: "calls st' = calls (scripted [OK, OK, OK, Expired] (store_of []))
          @ [TxnGet None ''00010'' False NotFound [], TxnPut None ''00010'' ''1'' OK, TxnPrepare OK]
          @ [TxnCommit Expired]" by blast
  from DoInsert_counts_one [OF disjI1, OF 1] obtain cs where
    3: "calls st' = calls (scripted [OK, OK, OK, Expired] (store_of [])) @ cs"
       "last_status h' = final_status cs"
       "if final_status cs = OK
         then success_count h' = success_count (inserter_of [0, 0, 1, 1, 1] 1 1) + 1
            \<and> failure_count h' = failure_count (inserter_of [0, 0, 1, 1, 1] 1 1)
         else failure_count h' = failure_count (inserter_of [0, 0, 1, 1, 1] 1 1) + 1
            \<and> success_count h' = success_count (inserter_of [0, 0, 1, 1, 1] 1 1)"
    by blast
  from 2 3(1) have cs: "cs = [TxnGet None ''00010'' False NotFound [], TxnPut None ''00010'' ''1'' OK,
        TxnPrepare OK, TxnCommit Expired]" by simp
  have f: "final_status [TxnGet None ''00010'' False NotFound [], TxnPut None ''00010'' ''1'' OK,
        TxnPrepare OK, TxnCommit Expired] = Expired"
    by (simp add: final_status_def read_status_def)
  from 3(2,3) cs f have a: "counts_after (DoInsert True InTxn False [] (inserter_of [0, 0, 1, 1, 1] 1 1)
       (scripted [OK, OK, OK, Expired] (store_of []))) = Some (0, 1, Expired)"
    using 1 by (simp add: counts_after_def inserter_of_def)
  from run_rollback obtain b h'' st'' where
    4: "DoInsert False InTxn False [] (inserter_of [0, 0, 1, 1, 0] 1 1) (store_of [])
       = Returned (b, h'', st'')"
    and 5: "calls st'' = calls (store_of [])
          @ [TxnGet None ''00010'' False NotFound [], TxnPut None ''00010'' ''1'' OK, TxnPrepare OK]
          @ [TxnRollback OK]"
    and 6: "failure_count h'' = 0" by blast
  from DoInsert_counts_one [OF disjI1, OF 4] obtain cs' where
    7: "calls st'' = calls (store_of []) @ cs'"
       "last_status h'' = final_status cs'"
       "\<forall>cs0. cs' = cs0 @ [TxnRollback OK] \<and> final_status cs0 = OK
           \<longrightarrow> success_count h'' = success_count (inserter_of [0, 0, 1, 1, 0] 1 1) + 1"
    by blast
  from 5 7(1) have cs': "cs' = [TxnGet None ''00010'' False NotFound [], TxnPut None ''00010'' ''1'' OK,
        TxnPrepare OK] @ [TxnRollback OK]" by simp
  have g: "final_status [TxnGet None ''00010'' False NotFound [], TxnPut None ''00010'' ''1'' OK,
        TxnPrepare OK] = OK"
    by (simp add: final_status_def read_status_def)
  have g': "final_status [TxnGet None ''00010'' False NotFound [], TxnPut None ''00010'' ''1'' OK,
        TxnPrepare OK, TxnRollback OK] = OK"
    by (simp add: final_status_def read_status_def)
  from 7(3) cs' g have "success_count h'' = success_count (inserter_of [0, 0, 1, 1, 0] 1 1) + 1"
    by blast
  with 7(2) cs' g' 6 4 have c: "counts_after (DoInsert False InTxn False [] (inserter_of [0, 0, 1, 1, 0] 1 1) (store_of []))
       = Some (1, 0, OK)"
    by (simp add: counts_after_def inserter_of_def)
  from a f c g' show ?thesis by blast
qed

text \<open>The claim as stated fails: the deliberate rollback returns \<open>OK\<close> and is counted
  as a success; with assertions a run whose commit expires counts nothing, since it does
  not return; and \<open>DoWriteRandom\<close> does not return.\<close>

theorem deliberate_rollback_counts_as_success:
  "calls_after (DoInsert False InTxn False [] (inserter_of [0, 0, 1, 1, 0] 1 1) (store_of []))
     = [TxnGet None ''00010'' False NotFound [], TxnPut None ''00010'' ''1'' OK,
        TxnPrepare OK, TxnRollback OK]
   \<and> counts_after (DoInsert False InTxn False [] (inserter_of [0, 0, 1, 1, 0] 1 1) (store_of []))
     = Some (1, 0, OK)
   \<and> counts_after (DoInsert False InTxn False [] (inserter_of [0, 0, 1, 1, 1] 1 1)
       (scripted [OK, OK, OK, Expired] (store_of []))) = None
   \<and> DoWriteRandom False 0 (inserter_of [] 1 1) (store_of []) = None"
  by (simp add: insert_eval engine_eval shuffle_1 full_key_0_0 ToString_1 stoull_eval
      DoWriteRandom_def RandomGenerator_None)

text \<open>
  Claim C10 (the code breaks it). \<open>DoWriteRandom\<close> constructs a \<open>RandomGenerator\<close>
  first, whose loop appends an empty string until the data is long enough: the call
  does not return, so that no set is visited at all.
\<close>

theorem DoWriteRandom_never_returns: "DoWriteRandom nd num_families h st = None"
  by (simp add: DoWriteRandom_def RandomGenerator_None)



section \<open>Shuffles, decimal texts and the order of the keys\<close>

lemma mset_swap_at: "i < length xs \<Longrightarrow> j < length xs \<Longrightarrow> mset (swap_at i j xs) = mset xs"
  by (simp add: swap_at_def mset_swap)

lemma length_swap_at [simp]: "length (swap_at i j xs) = length xs"
  by (simp add: swap_at_def)

lemma draw_uniform_less: "0 < n \<Longrightarrow> fst (draw_uniform n rs) < n"
  by (simp add: draw_uniform_def draw_def Let_def split: list.splits prod.splits)

lemma shuffle_steps_mset:
  "i + n \<le> length xs \<Longrightarrow> mset (fst (shuffle_steps n i xs rs)) = mset xs"
proof (induction n arbitrary: i xs rs)
  case 0
  then show ?case by simp
next
  case (Suc n)
  obtain j rs' where d: "draw_uniform (i + 1) rs = (j, rs')" by (metis surj_pair)
  with draw_uniform_less [of "i + 1" rs] have "j < i + 1" by simp
  with Suc.prems have "mset (swap_at i j xs) = mset xs" by (simp add: mset_swap_at)
  moreover have "mset (fst (shuffle_steps n (i + 1) (swap_at i j xs) rs')) = mset (swap_at i j xs)"
    using Suc.prems by (intro Suc.IH) simp
  ultimately show ?case using d by simp
qed

lemma random_shuffle_mset: "mset (fst (random_shuffle xs rs)) = mset xs"
proof (cases xs)
  case Nil
  then show ?thesis by (simp add: random_shuffle_def)
next
  case (Cons x xs')
  then show ?thesis by (simp add: random_shuffle_def shuffle_steps_mset)
qed

lemma std_shuffle_mset: "mset (std_shuffle device xs) = mset xs"
  by (simp add: std_shuffle_def random_shuffle_mset)

lemma std_shuffle_upt:
  "distinct (std_shuffle device [0..<n]) \<and> set (std_shuffle device [0..<n]) = {0..<n}"
proof -
  have m: "mset (std_shuffle device [0..<n]) = mset [0..<n]" by (rule std_shuffle_mset)
  then have "distinct (std_shuffle device [0..<n]) = distinct [0..<n]" by (rule mset_eq_imp_distinct_iff)
  moreover from m have "set (std_shuffle device [0..<n]) = set [0..<n]" by (rule mset_eq_setD)
  ultimately show ?thesis by simp
qed

text \<open>Decimal texts\<close>

lemma is_digit_not_space: "is_digit c \<Longrightarrow> \<not> is_space c"
  by (auto simp: is_digit_def is_space_def)

lemma is_digit_not_sign: "is_digit c \<Longrightarrow> c \<noteq> CHR ''-'' \<and> c \<noteq> CHR ''+''"
  by (auto simp: is_digit_def)

lemma stoull_ToString: "n \<le> ULONG_MAX \<Longrightarrow> stoull (ToString n) = Some n"
proof -
  assume n: "n \<le> ULONG_MAX"
  obtain c cs where s: "ToString n = c # cs" using ToString_not_Nil [of n] by (cases "ToString n") auto
  have d: "\<forall>c\<in>set (ToString n). is_digit c" by (rule ToString_digits)
  with s have c: "is_digit c" and cs: "\<forall>x\<in>set cs. is_digit x" by simp_all
  from cs have t: "takeWhile is_digit cs = cs" by (simp add: takeWhile_eq_all_conv)
  have v: "dec_val (c # cs) = n" using dec_val_ToString [of n] s by simp
  show ?thesis
    using n c is_digit_not_sign [OF c] is_digit_not_space [OF c]
    by (simp add: stoull_def s t v Let_def)
qed

lemma ToString_inj: "ToString a = ToString b \<Longrightarrow> a = b"
  by (metis dec_val_ToString)

text \<open>Keys in order\<close>

lemma between_has_prefix:
  fixes p k :: "'a::linorder list"
  shows "p \<le> k \<Longrightarrow> k \<le> p @ t \<Longrightarrow> take (length p) k = p"
proof (induction p arbitrary: k)
  case Nil
  then show ?case by simp
next
  case (Cons a p)
  then show ?case
  proof (cases k)
    case Nil
    with Cons.prems show ?thesis by simp
  next
    case (Cons b k')
    with Cons.prems Cons.IH [of k'] show ?thesis
      by (auto split: if_splits)
  qed
qed

lemma take_le: fixes k :: "'a::linorder list" shows "take n k \<le> k"
proof (induction k arbitrary: n)
  case Nil
  then show ?case by simp
next
  case (Cons a k)
  then show ?case by (cases n) auto
qed

text \<open>After the construction of \<open>gen\<close>, \<open>DoWriteRandom\<close> would work on a shuffle of
  the sets \<open>0 .. k - 1\<close>, \<open>k\<close> between 1 and \<open>num_sets_\<close>.\<close>

lemma write_random_sets_prefix:
  assumes "0 < num_sets h" and "num_sets h < 65536"
  shows "\<exists>k. 1 \<le> k \<and> k \<le> num_sets h \<and> mset (fst (write_random_sets h)) = mset [0..<k]"
proof -
  obtain r h1 where n: "rand_Next h = (r, h1)" by (metis surj_pair)
  from rand_Next_frame [OF n] have ns: "num_sets h1 = num_sets h" by simp
  let ?k = "(r mod num_sets h + 1) mod 65536"
  have "r mod num_sets h < num_sets h" using assms(1) by simp
  with assms(2) have k: "?k = r mod num_sets h + 1" by simp
  have "fst (write_random_sets h) = fst (random_shuffle [0..<?k] (rand h1))"
    using n ns by (simp add: write_random_sets_def Let_def split: prod.splits)
  then have "mset (fst (write_random_sets h)) = mset [0..<?k]"
    by (simp only: random_shuffle_mset)
  moreover have "1 \<le> ?k \<and> ?k \<le> num_sets h" using k assms(1) by (simp add: Suc_leI)
  ultimately show ?thesis by blast
qed

section \<open>\<open>Verify\<close> on a store whose sets have equal sums\<close>

lemma u64_add_left [simp]: "u64 (u64 a + b) = u64 (a + b)"
  by (simp add: u64_def mod_add_left_eq)

lemma has_prefix_ge: "has_prefix k p \<Longrightarrow> p \<le> k"
  unfolding has_prefix_def using take_le [of 4 k] by auto

lemma u64_less: "u64 n < 2 ^ 64"
  by (simp add: u64_def)

lemma u64_id: "n < 2 ^ 64 \<Longrightarrow> u64 n = n"
  by (simp add: u64_def)

lemma iterate_set_sorted:
  assumes "sorted_wrt (<) (map fst L)" and "\<forall>e\<in>set L. p \<le> fst e" and "length p = 4"
    and "\<forall>e\<in>set L. has_prefix (fst e) p \<longrightarrow> is_counter (snd e)" and "t < 2 ^ 64"
  shows "iterate_set p L t = Returned (Inr (u64 (t + prefix_sum p L)))"
  using assms
proof (induction L arbitrary: t)
  case Nil
  then show ?case by (simp add: prefix_sum_def u64_id)
next
  case (Cons e L)
  obtain k v where e: "e = (k, v)" by (cases e)
  show ?case
  proof (cases "has_prefix k p")
    case True
    with Cons.prems(4) e obtain x where x: "stoull v = Some x" "x \<noteq> 0" "x \<noteq> ULONG_MAX"
      by (auto simp: is_counter_def split: option.splits)
    have "iterate_set p L (u64 (t + x)) = Returned (Inr (u64 (u64 (t + x) + prefix_sum p L)))"
    proof (rule Cons.IH)
      show "u64 (t + x) < 2 ^ 64" by (rule u64_less)
    qed (use Cons.prems(1-4) in auto)
    moreover have "prefix_sum p (e # L) = x + prefix_sum p L"
      using True e x by (simp add: prefix_sum_def value_of_def)
    ultimately show ?thesis using True e x by (simp add: add.assoc)
  next
    case False
    have "\<not> has_prefix (fst e') p" if "e' \<in> set L" for e'
    proof
      assume h: "has_prefix (fst e') p"
      from Cons.prems(1) e that have "k < fst e'" by auto
      moreover from h Cons.prems(3) have "fst e' = p @ drop 4 (fst e')"
        by (metis append_take_drop_id has_prefix_def)
      ultimately have "k \<le> p @ drop 4 (fst e')" by simp
      moreover from Cons.prems(2) e have "p \<le> k" by simp
      ultimately have "take (length p) k = p" by (rule between_has_prefix [rotated])
      with Cons.prems(3) False show False by (simp add: has_prefix_def)
    qed
    then have "filter (\<lambda>e. has_prefix (fst e) p) L = []" by (simp add: filter_empty_conv)
    with False e Cons.prems(5) show ?thesis by (simp add: prefix_sum_def u64_id)
  qed
qed

lemma seek_sorted:
  assumes "sorted_wrt (<) (map fst L)"
  shows "sorted_wrt (<) (map fst (seek p L)) \<and> (\<forall>e\<in>set (seek p L). p \<le> fst e)
       \<and> set (seek p L) \<subseteq> set L \<and> prefix_sum p (seek p L) = prefix_sum p L"
  using assms
proof (induction L)
  case Nil
  then show ?case by (simp add: seek_def)
next
  case (Cons e L)
  show ?case
  proof (cases "fst e < p")
    case True
    then have "\<not> has_prefix (fst e) p" using has_prefix_ge [of "fst e" p] by auto
    with True Cons show ?thesis by (auto simp: seek_def prefix_sum_def)
  next
    case False
    then have s: "seek p (e # L) = e # L" by (simp add: seek_def)
    from Cons.prems False have "\<forall>e'\<in>set (e # L). p \<le> fst e'" by auto
    with s Cons.prems show ?thesis by simp
  qed
qed

lemma length_set_prefix4: "set_i + 1 \<le> 9999 \<Longrightarrow> length (set_prefix set_i) = 4"
  by (simp add: length_set_prefix)

lemma scan_total:
  assumes "sorted_wrt (<) (map fst es)" and "\<forall>e\<in>set es. is_counter (snd e)" and "s + 1 \<le> 9999"
  shows "iterate_set (set_prefix s) (seek (take 4 (set_prefix s)) es) 0
           = Returned (Inr (u64 (prefix_sum (set_prefix s) es)))"
proof -
  note l = length_set_prefix4 [OF assms(3)]
  then have t: "take 4 (set_prefix s) = set_prefix s" by simp
  from seek_sorted [OF assms(1), of "set_prefix s"] assms(2) l
  have "iterate_set (set_prefix s) (seek (set_prefix s) es) 0
          = Returned (Inr (u64 (0 + prefix_sum (set_prefix s) (seek (set_prefix s) es))))"
    by (intro iterate_set_sorted) auto
  with seek_sorted [OF assms(1), of "set_prefix s"] t show ?thesis by simp
qed

lemma has_prefix_full_key:
  "s' + 1 \<le> 9999 \<Longrightarrow> has_prefix (full_key s' i) (set_prefix s) = (s = s')"
  using set_prefix_inj [of s' s] by (auto simp: has_prefix_def take4_full_key)

lemma full_key_inj:
  assumes "full_key s i = full_key s' i'" and "s + 1 \<le> 9999" and "s' + 1 \<le> 9999"
  shows "s = s' \<and> i = i'"
proof -
  from assms have "take 4 (full_key s i) = take 4 (full_key s' i')" by simp
  with assms(2,3) have "set_prefix s = set_prefix s'" by (simp add: take4_full_key)
  then have s: "s = s'" by (rule set_prefix_inj)
  with assms(1) have "ToString i = ToString i'" by (simp add: full_key_def)
  with s show ?thesis by (simp add: ToString_inj)
qed

lemma val_at_Cons: "val_at ((k, v) # es) k' = (if k' = k then value_of v else val_at es k')"
  by (simp add: val_at_def)

lemma val_at_absent: "k \<notin> fst ` set es \<Longrightarrow> val_at es k = 0"
  by (simp add: val_at_def map_of_eq_None_iff [THEN iffD2])

lemma well_formed_Cons:
  "well_formed ns nk (e # es) \<Longrightarrow> well_formed ns nk es \<and> fst e \<notin> fst ` set es"
  by (auto simp: well_formed_def)

lemma prefix_sum_set_total:
  assumes "well_formed ns nk es" and "s < ns" and "ns \<le> 9999"
  shows "prefix_sum (set_prefix s) es = set_total nk es s"
  using assms(1)
proof (induction es)
  case Nil
  then show ?case by (simp add: prefix_sum_def set_total_def val_at_def)
next
  case (Cons e es)
  obtain k v where e: "e = (k, v)" by (cases e)
  from well_formed_Cons [OF Cons.prems] e have wf: "well_formed ns nk es" and nin: "k \<notin> fst ` set es"
    by simp_all
  from Cons.prems e obtain s' i' where k: "s' < ns" "i' < nk" "k = full_key s' i'"
    by (auto simp: well_formed_def)
  have ps: "prefix_sum (set_prefix s) (e # es)
              = (if s = s' then value_of v else 0) + prefix_sum (set_prefix s) es"
    using e k assms(3) by (simp add: prefix_sum_def has_prefix_full_key)
  have st: "set_total nk (e # es) s = (if s = s' then value_of v else 0) + set_total nk es s"
  proof (cases "s = s'")
    case True
    have "val_at (e # es) (full_key s i) = val_at es (full_key s i) + (if i = i' then value_of v else 0)"
      if "i < nk" for i
    proof (cases "i = i'")
      case T: True
      with nin k True have "val_at es (full_key s i) = 0" by (simp add: val_at_absent)
      with T e k True show ?thesis by (simp add: val_at_Cons)
    next
      case False
      with full_key_inj [of s i s' i'] assms(2,3) k have "full_key s i \<noteq> k" by auto
      with False e show ?thesis by (simp add: val_at_Cons)
    qed
    then have "set_total nk (e # es) s
                 = (\<Sum>i<nk. val_at es (full_key s i) + (if i = i' then value_of v else 0))"
      by (simp add: set_total_def)
    also have "\<dots> = set_total nk es s + value_of v"
      using k(2) by (simp add: set_total_def sum.distrib)
    finally show ?thesis using True by simp
  next
    case False
    have "val_at (e # es) (full_key s i) = val_at es (full_key s i)" for i
      using full_key_inj [of s i s' i'] assms(2,3) k False e by (auto simp: val_at_Cons)
    with False show ?thesis by (simp add: set_total_def)
  qed
  from ps st Cons.IH [OF wf] show ?case by simp
qed

text \<open>Reads of the plain \<open>DB\<close> when no failure is scripted\<close>

lemma map_of_counter:
  "\<forall>e\<in>set es. is_counter (snd e) \<Longrightarrow> map_of es k = Some v \<Longrightarrow> is_counter v"
  by (force dest: map_of_SomeD)

lemma is_counter_value:
  "is_counter v \<Longrightarrow> stoull v = Some (value_of v) \<and> value_of v \<noteq> 0 \<and> value_of v \<noteq> ULONG_MAX"
  by (auto simp: is_counter_def value_of_def split: option.splits)

lemma DBGet_plain_ok:
  assumes "faults st = []" and "nd \<or> set_i + 1 \<le> 9999" and "\<forall>e\<in>set (contents st). is_counter (snd e)"
  shows "\<exists>st'. DBGet nd PlainDB set_i k fu iv ue st
           = Returned (OK, val_at (contents st) (full_key set_i k), full_key set_i k, ue, st')
         \<and> contents st' = contents st \<and> faults st' = [] \<and> pending st' = pending st
         \<and> snapshots st' = snapshots st \<and> console st' = console st"
proof (cases "map_of (contents st) (full_key set_i k)")
  case None
  with assms show ?thesis
    by (simp add: DBGet_def db_get_def next_fault_def answer_get_def record_call_def val_at_def Let_def)
next
  case (Some v)
  from map_of_counter [OF assms(3) Some] have "is_counter v" .
  note c = is_counter_value [OF this]
  with Some assms show ?thesis
    by (simp add: DBGet_def db_get_def next_fault_def answer_get_def record_call_def val_at_def Let_def)
qed

lemma point_lookups_total:
  assumes "faults st = []" and "nd \<or> set_i + 1 \<le> 9999" and "\<forall>e\<in>set (contents st). is_counter (snd e)"
    and "t < 2 ^ 64"
  shows "\<exists>st'. point_lookups nd set_i k n t st
           = Returned (u64 (t + (\<Sum>i = k..<k + n. val_at (contents st) (full_key set_i i))), st')
         \<and> contents st' = contents st \<and> faults st' = [] \<and> pending st' = pending st
         \<and> snapshots st' = snapshots st \<and> console st' = console st"
  using assms
proof (induction n arbitrary: k t st)
  case 0
  then show ?case by (simp add: u64_id)
next
  case (Suc n)
  from DBGet_plain_ok [OF Suc.prems(1-3), of k False 0 False] obtain st1 where
    d: "DBGet nd PlainDB set_i k False 0 False st
           = Returned (OK, val_at (contents st) (full_key set_i k), full_key set_i k, False, st1)"
    and f: "contents st1 = contents st" "faults st1 = []" "pending st1 = pending st"
       "snapshots st1 = snapshots st" "console st1 = console st" by blast
  have lt: "u64 (t + val_at (contents st) (full_key set_i k)) < 2 ^ 64" by (rule u64_less)
  from Suc.IH [of st1 "u64 (t + val_at (contents st) (full_key set_i k))" "k + 1"] f Suc.prems(2,3) lt
  obtain st' where
    r: "point_lookups nd set_i (k + 1) n (u64 (t + val_at (contents st) (full_key set_i k))) st1
          = Returned (u64 (u64 (t + val_at (contents st) (full_key set_i k))
              + (\<Sum>i = k + 1..<k + 1 + n. val_at (contents st) (full_key set_i i))), st')"
    and f': "contents st' = contents st" "faults st' = []" "pending st' = pending st"
      "snapshots st' = snapshots st" "console st' = console st" by auto
  have "(\<Sum>i = k..<k + Suc n. val_at (contents st) (full_key set_i i))
          = val_at (contents st) (full_key set_i k)
            + (\<Sum>i = k + 1..<k + 1 + n. val_at (contents st) (full_key set_i i))"
    by (simp add: sum.atLeast_Suc_lessThan)
  with d r f' show ?case by (simp add: add.assoc)
qed

lemma well_formed_counters: "well_formed ns nk es \<Longrightarrow> \<forall>e\<in>set es. is_counter (snd e)"
  by (simp add: well_formed_def)

lemma well_formed_sorted: "well_formed ns nk es \<Longrightarrow> sorted_wrt (<) (map fst es)"
  by (simp add: well_formed_def)

lemma sum_set_consistent:
  assumes "well_formed ns nk (contents st)" and "faults st = []" and "s < ns" and "ns \<le> 9999"
  shows "\<exists>rnd1 st1. sum_set nd nk s rnd st
           = Returned (Inr (u64 (set_total nk (contents st) s)), rnd1, st1)
         \<and> contents st1 = contents st \<and> faults st1 = [] \<and> pending st1 = pending st
         \<and> console st1 = console st"
proof -
  from assms(3,4) have s: "s + 1 \<le> 9999" by simp
  obtain use_point rnd1 where
    c: "(if nk \<noteq> 0 \<and> rnd \<noteq> None then (let (b, rs) = draw_one_in 10 (the rnd) in (b, Some rs))
         else (False, rnd)) = (use_point, rnd1)" by (metis surj_pair)
  show ?thesis
  proof (cases use_point)
    case True
    from point_lookups_total [OF assms(2) _ well_formed_counters [OF assms(1)], of nd s 0 0 nk] s
    obtain st' where
      p: "point_lookups nd s 0 nk 0 st
           = Returned (u64 (\<Sum>i = 0..<nk. val_at (contents st) (full_key s i)), st')"
      and f: "contents st' = contents st" "faults st' = []" "pending st' = pending st"
        "console st' = console st"
      by auto
    have "(\<Sum>i = 0..<nk. val_at (contents st) (full_key s i)) = set_total nk (contents st) s"
      by (simp add: set_total_def atLeast0LessThan)
    with p f c True show ?thesis by (simp add: sum_set_def Let_def)
  next
    case False
    have ct: "contents (new_iterator st) = contents st"
      by (simp add: new_iterator_def record_call_def)
    from scan_total [OF well_formed_sorted [OF assms(1)] well_formed_counters [OF assms(1)] s]
      prefix_sum_set_total [OF assms(1,3,4)]
    have "iterate_set (set_prefix s) (seek (take 4 (set_prefix s)) (contents st)) 0
            = Returned (Inr (u64 (set_total nk (contents st) s)))" by simp
    with c False ct assms(2) show ?thesis
      by (simp add: sum_set_def Let_def new_iterator_def delete_iterator_def record_call_def)
  qed
qed

lemma verify_sets_consistent:
  assumes "well_formed ns nk (contents st)" and "faults st = []" and "ns \<le> 9999"
    and "\<forall>s<ns. set_total nk (contents st) s = T" and "\<forall>s\<in>set vec. s < ns"
    and "prev = None \<or> (\<exists>a. prev = Some (a, u64 T))"
  shows "\<exists>p rnd1 st1. verify_sets nd nk vec prev rnd st = Returned (Inr p, rnd1, st1)"
  using assms
proof (induction vec arbitrary: prev rnd st)
  case Nil
  then show ?case by simp
next
  case (Cons s vec)
  from Cons.prems(5) have s: "s < ns" by simp
  from sum_set_consistent [OF Cons.prems(1,2) s Cons.prems(3), of nd rnd] Cons.prems(4) s
  obtain rnd1 st1 where
    ss: "sum_set nd nk s rnd st = Returned (Inr (u64 T), rnd1, st1)"
    and f: "contents st1 = contents st" "faults st1 = []" by auto
  from Cons.IH [of st1 "Some (s, u64 T)" rnd1] Cons.prems f
  obtain p rnd2 st2 where
    r: "verify_sets nd nk vec (Some (s, u64 T)) rnd1 st1 = Returned (Inr p, rnd2, st2)" by auto
  from s Cons.prems(3) have "s + 1 \<le> 9999" by simp
  with ss r Cons.prems(6) show ?case by auto
qed

lemma Verify_consistent:
  assumes "well_formed ns nk (contents st)" and "faults st = []" and "ns \<le> 9999"
    and "\<forall>s<ns. set_total nk (contents st) s = T"
  shows "\<exists>rnd1 st1. Verify nd ns nk take_snapshot device rnd st = Returned (OK, rnd1, st1)"
proof -
  let ?st = "if take_snapshot then get_snapshot st else st"
  have c: "contents ?st = contents st" "faults ?st = faults st"
    by (simp_all add: get_snapshot_def record_call_def)
  have v: "\<forall>s\<in>set (std_shuffle device [0..<ns]). s < ns"
    using std_shuffle_upt [of device ns] by simp
  from verify_sets_consistent [of ns nk ?st T "std_shuffle device [0..<ns]" None nd rnd]
    assms c v
  obtain p rnd1 st1 where
    "verify_sets nd nk (std_shuffle device [0..<ns]) None rnd ?st = Returned (Inr p, rnd1, st1)"
    by auto
  then show ?thesis by (simp add: Verify_def)
qed









section \<open>\<open>DoInsert\<close> when no call fails\<close>

lemma map_of_put_entry: "map_of (put_entry k v es) k' = (if k' = k then Some v else map_of es k')"
  by (induction es) auto

lemma val_at_put_entry: "val_at (put_entry k v es) k' = (if k' = k then value_of v else val_at es k')"
  by (simp add: val_at_def map_of_put_entry)

lemma set_put_entry: "set (put_entry k v es) \<subseteq> insert (k, v) (set es)"
proof (induction es)
  case Nil
  then show ?case by simp
next
  case (Cons e es)
  then show ?case by (cases e) (auto split: if_splits)
qed

lemma fst_set_put_entry: "fst ` set (put_entry k v es) = insert k (fst ` set es)"
proof (induction es)
  case Nil
  then show ?case by simp
next
  case (Cons e es)
  then show ?case by (cases e) (auto split: if_splits)
qed

lemma sorted_put_entry:
  "sorted_wrt (<) (map fst es) \<Longrightarrow> sorted_wrt (<) (map fst (put_entry k v es))"
proof (induction es)
  case Nil
  then show ?case by simp
next
  case (Cons e es)
  obtain k' v' where e: "e = (k', v')" by (cases e)
  show ?case
  proof (cases "k < k'")
    case True
    with Cons.prems e show ?thesis by auto
  next
    case False
    show ?thesis
    proof (cases "k = k'")
      case True
      with Cons.prems e show ?thesis by auto
    next
      case F: False
      with False have lt: "k' < k" by simp
      have "\<forall>x\<in>set (put_entry k v es). k' < fst x"
      proof
        fix x assume "x \<in> set (put_entry k v es)"
        then have "fst x \<in> insert k (fst ` set es)" using fst_set_put_entry [of k v es] by auto
        with lt Cons.prems e show "k' < fst x" by auto
      qed
      with False F Cons e show ?thesis by simp
    qed
  qed
qed

lemma value_of_ToString: "x \<le> ULONG_MAX \<Longrightarrow> value_of (ToString x) = x"
  by (simp add: value_of_def stoull_ToString)

lemma is_counter_ToString: "0 < x \<Longrightarrow> x < ULONG_MAX \<Longrightarrow> is_counter (ToString x)"
  by (simp add: is_counter_def stoull_ToString)

lemma well_formed_put_entry:
  assumes "well_formed ns nk es" and "s < ns" and "i < nk" and "is_counter v"
  shows "well_formed ns nk (put_entry (full_key s i) v es)"
proof -
  have "sorted_wrt (<) (map fst (put_entry (full_key s i) v es))"
    using assms(1) by (simp add: well_formed_def sorted_put_entry)
  moreover have "(\<exists>s i. s < ns \<and> i < nk \<and> fst e = full_key s i) \<and> is_counter (snd e)"
    if "e \<in> set (put_entry (full_key s i) v es)" for e
  proof -
    from that set_put_entry [of "full_key s i" v es] have "e = (full_key s i, v) \<or> e \<in> set es" by auto
    then show ?thesis
    proof
      assume "e = (full_key s i, v)"
      with assms(2,3,4) show ?thesis by auto
    next
      assume "e \<in> set es"
      with assms(1) show ?thesis by (simp add: well_formed_def)
    qed
  qed
  ultimately show ?thesis by (simp add: well_formed_def)
qed

lemma val_at_le_total: "i < nk \<Longrightarrow> val_at es (full_key s i) \<le> set_total nk es s"
  unfolding set_total_def
  by (rule member_le_sum) simp_all

lemma set_total_put_entry:
  assumes "s < ns" and "s' < ns" and "ns \<le> 9999" and "i < nk"
  shows "set_total nk (put_entry (full_key s i) v es) s'
           = (if s' = s then set_total nk es s - val_at es (full_key s i) + value_of v
              else set_total nk es s')"
proof (cases "s' = s")
  case False
  have "val_at (put_entry (full_key s i) v es) (full_key s' j) = val_at es (full_key s' j)" for j
    using full_key_inj [of s' j s i] assms False by (auto simp: val_at_put_entry)
  with False show ?thesis by (simp add: set_total_def)
next
  case True
  have eq: "val_at (put_entry (full_key s i) v es) (full_key s j)
          = (if j = i then value_of v else val_at es (full_key s j))" for j
    using full_key_inj [of s j s i] assms by (auto simp: val_at_put_entry)
  have "set_total nk (put_entry (full_key s i) v es) s
          = (\<Sum>j<nk. if j = i then value_of v else val_at es (full_key s j))"
    by (simp add: set_total_def eq)
  also have "\<dots> = value_of v + (\<Sum>j\<in>{..<nk} - {i}. val_at es (full_key s j))"
    using assms(4) by (simp add: sum.remove [of _ i])
  also have "(\<Sum>j\<in>{..<nk} - {i}. val_at es (full_key s j))
              = set_total nk es s - val_at es (full_key s i)"
    using assms(4) by (simp add: set_total_def sum.remove [of _ i])
  finally show ?thesis using True by simp
qed

lemma apply_writes_snoc: "apply_writes es (ws @ [(k, v)]) = put_entry k v (apply_writes es ws)"
  by (simp add: apply_writes_def)

lemma apply_increments:
  assumes "well_formed ns nk es" and "ns \<le> 9999" and "0 < incr"
    and "\<forall>s<ns. set_total nk es s + incr < ULONG_MAX"
    and "distinct (map fst picks)" and "\<forall>p\<in>set picks. fst p < ns \<and> snd p < nk"
  shows "well_formed ns nk (apply_writes es (map (increment_of es incr) picks))
       \<and> (\<forall>s<ns. set_total nk (apply_writes es (map (increment_of es incr) picks)) s
                  = set_total nk es s + (if s \<in> fst ` set picks then incr else 0))
       \<and> (\<forall>s<ns. s \<notin> fst ` set picks \<longrightarrow> (\<forall>i. val_at (apply_writes es (map (increment_of es incr) picks)) (full_key s i)
                  = val_at es (full_key s i)))"
  using assms(5,6)
proof (induction picks rule: rev_induct)
  case Nil
  with assms(1) show ?case by (simp add: apply_writes_def)
next
  case (snoc p picks)
  obtain s i where p: "p = (s, i)" by (cases p)
  let ?es1 = "apply_writes es (map (increment_of es incr) picks)"
  let ?k = "full_key s i"
  let ?v = "ToString (val_at es ?k + incr)"
  from snoc.prems p have s: "s < ns" "i < nk" "s \<notin> fst ` set picks"
    and d: "distinct (map fst picks)" "\<forall>p\<in>set picks. fst p < ns \<and> snd p < nk" by auto
  from snoc.IH [OF d] have
    wf1: "well_formed ns nk ?es1"
    and tot1: "\<forall>s<ns. set_total nk ?es1 s = set_total nk es s + (if s \<in> fst ` set picks then incr else 0)"
    and same1: "\<forall>s<ns. s \<notin> fst ` set picks \<longrightarrow> (\<forall>i. val_at ?es1 (full_key s i) = val_at es (full_key s i))"
    by blast+
  have es': "apply_writes es (map (increment_of es incr) (picks @ [p])) = put_entry ?k ?v ?es1"
    using p by (simp add: increment_of_def apply_writes_snoc)
  have "val_at es ?k \<le> set_total nk es s" using s(2) by (rule val_at_le_total)
  with assms(4) s(1) have b: "val_at es ?k + incr < ULONG_MAX" by (meson add_le_mono1 le_less_trans)
  with assms(3) have cnt: "is_counter ?v" by (simp add: is_counter_ToString)
  from b have vo: "value_of ?v = val_at es ?k + incr" by (simp add: value_of_ToString)
  from same1 s have v1: "val_at ?es1 ?k = val_at es ?k" by simp
  have le1: "val_at ?es1 ?k \<le> set_total nk ?es1 s" using s(2) by (rule val_at_le_total)
  have A: "well_formed ns nk (put_entry ?k ?v ?es1)"
    using wf1 s(1,2) cnt by (rule well_formed_put_entry)
  have B: "set_total nk (put_entry ?k ?v ?es1) s'
             = set_total nk es s' + (if s' \<in> fst ` set (picks @ [p]) then incr else 0)"
    if "s' < ns" for s'
  proof (cases "s' = s")
    case True
    from set_total_put_entry [OF s(1) that assms(2) s(2), of ?v ?es1] True
    have "set_total nk (put_entry ?k ?v ?es1) s' = set_total nk ?es1 s - val_at ?es1 ?k + value_of ?v"
      by simp
    also have "\<dots> = set_total nk ?es1 s + incr" using vo v1 le1 by simp
    also have "\<dots> = set_total nk es s + incr" using tot1 s by simp
    finally show ?thesis using True p by simp
  next
    case False
    from set_total_put_entry [OF s(1) that assms(2) s(2), of ?v ?es1] False
    have "set_total nk (put_entry ?k ?v ?es1) s' = set_total nk ?es1 s'" by simp
    with tot1 that False p show ?thesis by simp
  qed
  have C: "val_at (put_entry ?k ?v ?es1) (full_key s' j) = val_at es (full_key s' j)"
    if "s' < ns" "s' \<notin> fst ` set (picks @ [p])" for s' j
  proof -
    from that p have ne: "s' \<noteq> s" and nin: "s' \<notin> fst ` set picks" by auto
    from ne full_key_inj [of s' j s i] that(1) s(1) assms(2) have "full_key s' j \<noteq> ?k" by auto
    then have "val_at (put_entry ?k ?v ?es1) (full_key s' j) = val_at ?es1 (full_key s' j)"
      by (simp add: val_at_put_entry)
    with same1 that(1) nin show ?thesis by simp
  qed
  from A B C show ?case unfolding es' by blast
qed

lemma pending_find_as_pending:
  "k \<notin> fst ` set ws \<Longrightarrow> pending_find None k (as_pending ws) = None"
  unfolding as_pending_def
proof (induction ws rule: rev_induct)
  case Nil
  then show ?case by simp
next
  case (snoc w ws)
  then show ?case by (cases w) auto
qed

lemma DBGet_txn_ok:
  assumes "faults st = []" and "nd \<or> set_i + 1 \<le> 9999" and "\<forall>e\<in>set (contents st). is_counter (snd e)"
    and "pending_find None (full_key set_i k) (pending st) = None"
  shows "\<exists>st'. DBGet nd InTxn set_i k fu iv ue st
           = Returned (OK, val_at (contents st) (full_key set_i k), full_key set_i k, ue, st')
         \<and> contents st' = contents st \<and> faults st' = [] \<and> pending st' = pending st"
proof (cases "map_of (contents st) (full_key set_i k)")
  case None
  with assms show ?thesis
    by (simp add: DBGet_def txn_get_def txn_lookup_def family_entries_def next_fault_def
        answer_get_def record_call_def val_at_def Let_def)
next
  case (Some v)
  from map_of_counter [OF assms(3) Some] have "is_counter v" .
  note c = is_counter_value [OF this]
  with Some assms show ?thesis
    by (simp add: DBGet_def txn_get_def txn_lookup_def family_entries_def next_fault_def
        answer_get_def record_call_def val_at_def Let_def)
qed

lemma DBGet_ok:
  assumes "faults st = []" and "nd \<or> set_i + 1 \<le> 9999" and "\<forall>e\<in>set (contents st). is_counter (snd e)"
    and "tgt = InTxn \<longrightarrow> pending_find None (full_key set_i k) (pending st) = None"
  shows "\<exists>st'. DBGet nd tgt set_i k fu iv ue st
           = Returned (OK, val_at (contents st) (full_key set_i k), full_key set_i k, ue, st')
         \<and> contents st' = contents st \<and> faults st' = [] \<and> pending st' = pending st"
proof (cases tgt)
  case PlainDB
  with DBGet_plain_ok [OF assms(1-3), of k fu iv ue] show ?thesis by auto
next
  case InTxn
  with DBGet_txn_ok [OF assms(1-3), of k fu iv ue] assms(4) show ?thesis by auto
qed

lemma txn_put_ok:
  "faults st = [] \<Longrightarrow> \<exists>st'. txn_put None k v st = (OK, st') \<and> contents st' = contents st
     \<and> faults st' = [] \<and> pending st' = WriteOp None k (Some v) # pending st"
  by (simp add: txn_put_def next_fault_def record_call_def)

lemma fst_increment_of [simp]: "fst (increment_of es incr p) = full_key (fst p) (snd p)"
  by (simp add: increment_of_def)

lemma insert_step_ok:
  assumes inv: "loop_inv tgt es incr picks h ls"
    and wf: "well_formed ns nk es" and ns: "ns \<le> 9999" and nk: "0 < nk" "num_keys h = nk"
    and incr: "0 < incr" and bound: "\<forall>s<ns. set_total nk es s + incr < ULONG_MAX"
    and s: "s < ns" "s \<notin> fst ` set picks" and picks: "\<forall>p\<in>set picks. fst p < ns"
  shows "\<exists>i ls'. i < nk \<and> insert_step nd tgt opt incr s ls = Returned (True, ls')
           \<and> loop_inv tgt es incr (picks @ [(s, i)]) h ls'"
proof -
  from inv have st: "ls_status ls = OK" "\<not> ls_unexpected ls" "contents (ls_eng ls) = es"
    "faults (ls_eng ls) = []" "num_keys (ls_ins ls) = num_keys h" "num_sets (ls_ins ls) = num_sets h"
    by (simp_all add: loop_inv_def)
  obtain r h1 where n: "rand_Next (ls_ins ls) = (r, h1)" by (metis surj_pair)
  obtain gfu h2 where g: "(if tgt = InTxn then rand_OneIn 2 h1 else (False, h1)) = (gfu, h2)"
    by (metis surj_pair)
  have fr: "num_keys h1 = nk" "num_keys h2 = nk" "num_sets h2 = num_sets h"
    using rand_Next_frame [OF n] g st nk
    by (auto split: if_splits dest!: rand_OneIn_frame)
  let ?i = "r mod nk"
  let ?k = "full_key s ?i"
  have i: "?i < nk" using nk by simp
  from s ns have s1: "s + 1 \<le> 9999" by simp
  have nf: "tgt = InTxn \<longrightarrow> pending_find None ?k (pending (ls_eng ls)) = None"
  proof
    assume t: "tgt = InTxn"
    have "?k \<notin> fst ` set (map (increment_of es incr) picks)"
    proof
      assume "?k \<in> fst ` set (map (increment_of es incr) picks)"
      then obtain p where p: "p \<in> set picks" "?k = full_key (fst p) (snd p)" by auto
      with picks ns have "fst p + 1 \<le> 9999" by auto
      from full_key_inj [OF p(2) s1 this] p(1) s(2) show False by auto
    qed
    then have "pending_find None ?k (as_pending (map (increment_of es incr) picks)) = None"
      by (rule pending_find_as_pending)
    with inv t show "pending_find None ?k (pending (ls_eng ls)) = None"
      by (simp add: loop_inv_def)
  qed
  from DBGet_ok [of "ls_eng ls" nd s tgt ?i gfu 0 "ls_unexpected ls"] st s1 nf
    well_formed_counters [OF wf]
  obtain st1 where
    d: "DBGet nd tgt s ?i gfu 0 (ls_unexpected ls) (ls_eng ls)
          = Returned (OK, val_at es ?k, ?k, ls_unexpected ls, st1)"
    and f1: "contents st1 = es" "faults st1 = []" "pending st1 = pending (ls_eng ls)"
    by auto
  have "val_at es ?k \<le> set_total nk es s" using i by (rule val_at_le_total)
  with bound s(1) have b: "val_at es ?k + incr < ULONG_MAX" by (meson add_le_mono1 le_less_trans)
  then have u: "u64 (val_at es ?k + incr) = val_at es ?k + incr"
    by (simp add: u64_def ULONG_MAX_def)
  let ?v = "ToString (val_at es ?k + incr)"
  have io: "increment_of es incr (s, ?i) = (?k, ?v)" by (simp add: increment_of_def)
  show ?thesis
  proof (cases tgt)
    case PlainDB
    from PlainDB g have g': "gfu = False" "h2 = h1" by simp_all
    have "insert_step nd tgt opt incr s ls
            = Returned (True, ls\<lparr>ls_status := OK, ls_unexpected := ls_unexpected ls,
                 ls_batch := ls_batch ls @ [(?k, ?v)],
                 ls_ins := h2\<lparr>bytes_inserted := bytes_inserted h2 + length ?k + length ?v\<rparr>,
                 ls_eng := st1\<rparr>)"
      using st nk n g d u fr PlainDB by (simp add: insert_step_def Let_def)
    moreover have "loop_inv tgt es incr (picks @ [(s, ?i)]) h
                 (ls\<lparr>ls_status := OK, ls_unexpected := ls_unexpected ls,
                 ls_batch := ls_batch ls @ [(?k, ?v)],
                 ls_ins := h2\<lparr>bytes_inserted := bytes_inserted h2 + length ?k + length ?v\<rparr>,
                 ls_eng := st1\<rparr>)"
      using inv f1 fr PlainDB io nk by (simp add: loop_inv_def)
    ultimately show ?thesis using i by blast
  next
    case InTxn
    from txn_put_ok [OF f1(2), of ?k ?v] obtain st2 where
      p: "txn_put None ?k ?v st1 = (OK, st2)"
      and f2: "contents st2 = contents st1" "faults st2 = []"
        "pending st2 = WriteOp None ?k (Some ?v) # pending st1" by blast
    have "insert_step nd tgt opt incr s ls
            = Returned (True, ls\<lparr>ls_status := OK, ls_unexpected := ls_unexpected ls,
                 ls_ins := h2\<lparr>bytes_inserted := bytes_inserted h2 + length ?k + length ?v\<rparr>,
                 ls_eng := st2\<rparr>)"
      using st nk n g d u fr InTxn p by (simp add: insert_step_def Let_def)
    moreover have "loop_inv tgt es incr (picks @ [(s, ?i)]) h
                 (ls\<lparr>ls_status := OK, ls_unexpected := ls_unexpected ls,
                 ls_ins := h2\<lparr>bytes_inserted := bytes_inserted h2 + length ?k + length ?v\<rparr>,
                 ls_eng := st2\<rparr>)"
      using inv f1 f2 fr InTxn io nk by (simp add: loop_inv_def as_pending_def)
    ultimately show ?thesis using i by blast
  qed
qed

lemma insert_loop_ok:
  assumes wf: "well_formed ns nk es" and ns: "ns \<le> 9999" and nk: "0 < nk" "num_keys h = nk"
    and incr: "0 < incr" and bound: "\<forall>s<ns. set_total nk es s + incr < ULONG_MAX"
  shows "loop_inv tgt es incr picks h ls \<Longrightarrow> distinct vec \<Longrightarrow> \<forall>s\<in>set vec. s < ns \<and> s \<notin> fst ` set picks
     \<Longrightarrow> \<forall>p\<in>set picks. fst p < ns \<and> snd p < nk
     \<Longrightarrow> \<exists>more ls'. insert_loop nd tgt opt incr vec ls = Returned ls'
           \<and> loop_inv tgt es incr (picks @ more) h ls' \<and> map fst more = vec
           \<and> (\<forall>p\<in>set more. snd p < nk)"
proof (induction vec arbitrary: picks ls)
  case Nil
  then show ?case by (intro exI [of _ "[]"]) simp
next
  case (Cons s vec)
  from Cons.prems have s: "s < ns" "s \<notin> fst ` set picks" and p: "\<forall>p\<in>set picks. fst p < ns" by auto
  from insert_step_ok [OF Cons.prems(1) wf ns nk incr bound s p, of nd opt]
  obtain i ls1 where i: "i < nk" and st: "insert_step nd tgt opt incr s ls = Returned (True, ls1)"
    and inv1: "loop_inv tgt es incr (picks @ [(s, i)]) h ls1" by blast
  have "\<exists>more ls'. insert_loop nd tgt opt incr vec ls1 = Returned ls'
           \<and> loop_inv tgt es incr ((picks @ [(s, i)]) @ more) h ls' \<and> map fst more = vec
           \<and> (\<forall>p\<in>set more. snd p < nk)"
    using inv1 Cons.prems(2,3,4) s i by (intro Cons.IH) auto
  then obtain more ls' where
    r: "insert_loop nd tgt opt incr vec ls1 = Returned ls'"
       "loop_inv tgt es incr ((picks @ [(s, i)]) @ more) h ls'" "map fst more = vec"
       "\<forall>p\<in>set more. snd p < nk" by blast
  show ?case
    using st r i by (intro exI [of _ "(s, i) # more"] exI [of _ ls']) simp
qed

lemma contents_set_family_None: "contents (set_family None es st) = es"
  by (simp add: set_family_def)

lemma faults_set_family [simp]: "faults (set_family cf es st) = faults st"
  by (simp add: set_family_def split: option.splits)

lemma foldr_apply_wop_as_pending:
  "contents (foldr apply_wop (as_pending ws) st) = apply_writes (contents st) ws
   \<and> faults (foldr apply_wop (as_pending ws) st) = faults st"
proof (induction ws rule: rev_induct)
  case Nil
  then show ?case by (simp add: as_pending_def apply_writes_def)
next
  case (snoc w ws)
  obtain k v where w: "w = (k, v)" by (cases w)
  have "as_pending (ws @ [w]) = WriteOp None k (Some v) # as_pending ws"
    using w by (simp add: as_pending_def)
  with snoc w show ?case
    by (simp add: apply_writes_snoc contents_set_family_None family_entries_def)
qed

lemma txn_commit_ok:
  assumes "faults st = []" and "pending st = as_pending ws"
  shows "\<exists>st'. txn_commit st = (OK, st') \<and> contents st' = apply_writes (contents st) ws
     \<and> faults st' = [] \<and> pending st' = []"
  using assms foldr_apply_wop_as_pending [of ws st]
  by (simp add: txn_commit_def next_fault_def record_call_def)

lemma txn_rollback_ok:
  "faults st = [] \<Longrightarrow> \<exists>st'. txn_rollback st = (OK, st') \<and> contents st' = contents st
     \<and> faults st' = [] \<and> pending st' = []"
  by (simp add: txn_rollback_def next_fault_def record_call_def)

lemma txn_prepare_ok:
  "faults st = [] \<Longrightarrow> \<exists>st'. txn_prepare st = (OK, st') \<and> contents st' = contents st
     \<and> faults st' = [] \<and> pending st' = pending st"
  by (simp add: txn_prepare_def next_fault_def record_call_def)

lemma db_write_ok:
  "faults st = [] \<Longrightarrow> \<exists>st'. db_write ws st = (OK, st') \<and> contents st' = apply_writes (contents st) ws
     \<and> faults st' = [] \<and> pending st' = pending st"
  by (simp add: db_write_def next_fault_def record_call_def apply_writes_def)

lemma insert_finish_ok:
  assumes "loop_inv tgt es incr picks h ls"
  shows "\<exists>ls'. insert_finish nd tgt opt ls = Returned ls'
     \<and> (contents (ls_eng ls') = apply_writes es (map (increment_of es incr) picks)
          \<or> contents (ls_eng ls') = es)
     \<and> faults (ls_eng ls') = [] \<and> pending (ls_eng ls') = []
     \<and> num_keys (ls_ins ls') = num_keys h \<and> num_sets (ls_ins ls') = num_sets h"
proof -
  from assms have st: "ls_status ls = OK" "\<not> ls_unexpected ls" "contents (ls_eng ls) = es"
    "faults (ls_eng ls) = []" "num_keys (ls_ins ls) = num_keys h" "num_sets (ls_ins ls) = num_sets h"
    by (simp_all add: loop_inv_def)
  show ?thesis
  proof (cases tgt)
    case PlainDB
    with assms have b: "ls_batch ls = map (increment_of es incr) picks" "pending (ls_eng ls) = []"
      by (simp_all add: loop_inv_def)
    from db_write_ok [OF st(4), of "ls_batch ls"] obtain st1 where
      w: "db_write (ls_batch ls) (ls_eng ls) = (OK, st1)"
      and f: "contents st1 = apply_writes (contents (ls_eng ls)) (ls_batch ls)" "faults st1 = []"
        "pending st1 = pending (ls_eng ls)" by blast
    have "insert_finish nd tgt opt ls = Returned (ls\<lparr>ls_status := OK, ls_eng := st1\<rparr>)"
      using st PlainDB w by (simp add: insert_finish_def)
    with f b st show ?thesis by simp
  next
    case InTxn
    with assms have pe: "pending (ls_eng ls) = as_pending (map (increment_of es incr) picks)"
      by (simp add: loop_inv_def)
    obtain o10 h1 where a: "(if \<not> opt then rand_OneIn 10 (ls_ins ls) else (True, ls_ins ls)) = (o10, h1)"
      by (metis surj_pair)
    obtain sp st1 where p: "(if \<not> opt \<and> \<not> o10 then txn_prepare (ls_eng ls) else (OK, ls_eng ls)) = (sp, st1)"
      by (metis surj_pair)
    obtain o20 h2 where b: "rand_OneIn 20 h1 = (o20, h2)" by (metis surj_pair)
    obtain s st2 where c: "(if \<not> o20 then txn_commit st1 else txn_rollback st1) = (s, st2)"
      by (metis surj_pair)
    have fr: "num_keys h2 = num_keys h \<and> num_sets h2 = num_sets h"
      using a b st by (auto split: if_splits dest!: rand_OneIn_frame)
    have p1: "sp = OK \<and> contents st1 = es \<and> faults st1 = [] \<and> pending st1 = pending (ls_eng ls)"
      using p st txn_prepare_ok [OF st(4)] by (auto split: if_splits)
    have c1: "s = OK \<and> (contents st2 = apply_writes es (map (increment_of es incr) picks) \<or> contents st2 = es)
              \<and> faults st2 = [] \<and> pending st2 = []"
    proof (cases o20)
      case True
      with c txn_rollback_ok [of st1] p1 show ?thesis by auto
    next
      case False
      with c txn_commit_ok [of st1 "map (increment_of es incr) picks"] p1 pe show ?thesis by auto
    qed
    have eq: "insert_finish nd tgt opt ls =
       (if \<not> nd \<and> sp \<noteq> OK then AssertionFailed
        else if \<not> nd \<and> o20 \<and> s \<noteq> OK then AssertionFailed
        else if \<not> nd \<and> \<not> (opt \<or> s = OK) then AssertionFailed
        else if s \<noteq> OK
        then Returned (ls\<lparr>ls_status := s,
                         ls_unexpected := (ls_unexpected ls \<or> (if opt then \<not> is_conflict s else s \<noteq> Expired)),
                         ls_ins := h2,
                         ls_eng := (if (ls_unexpected ls \<or> (if opt then \<not> is_conflict s else s \<noteq> Expired))
                                    then print (CommitError s) st2 else st2)\<rparr>)
        else Returned (ls\<lparr>ls_status := s, ls_ins := h2, ls_eng := st2\<rparr>))"
      unfolding insert_finish_def using st(1) InTxn
      by (simp only: a p b c Let_def if_True handle.case prod.case simp_thms)
    from p1 c1 have "insert_finish nd tgt opt ls = Returned (ls\<lparr>ls_status := s, ls_ins := h2, ls_eng := st2\<rparr>)"
      unfolding eq by simp
    with c1 fr show ?thesis by auto
  qed
qed

lemma DoInsert_ok:
  assumes c: "consistent ns nk T (contents st)" and f: "faults st = []" "pending st = []"
    and h: "num_sets h = ns" "num_keys h = nk" and nk: "0 < nk" and ns: "ns \<le> 9999"
    and b: "T + 100 < ULONG_MAX"
  shows "\<exists>b h' st' T'. DoInsert nd tgt opt device h st = Returned (b, h', st')
     \<and> consistent ns nk T' (contents st') \<and> T' \<le> T + 100
     \<and> faults st' = [] \<and> pending st' = [] \<and> num_sets h' = ns \<and> num_keys h' = nk"
proof -
  let ?es = "contents st"
  obtain r h1 where n: "rand_Next h = (r, h1)" by (metis surj_pair)
  let ?incr = "r mod 100 + 1"
  let ?vec = "std_shuffle device [0..<ns]"
  from rand_Next_frame [OF n] h have h1: "num_keys h1 = nk" "num_sets h1 = ns" by simp_all
  from c have wf: "well_formed ns nk ?es" and tot: "\<forall>s<ns. set_total nk ?es s = T"
    by (simp_all add: consistent_def)
  have incr: "0 < ?incr" "?incr \<le> 100" by simp_all
  have bound: "\<forall>s<ns. set_total nk ?es s + ?incr < ULONG_MAX"
    using tot b incr(2) by (simp add: ULONG_MAX_def)
  have inv0: "loop_inv tgt ?es ?incr [] h1 (first_state h1 st)"
    using f by (cases tgt) (simp_all add: loop_inv_def first_state_def as_pending_def)
  have vec: "distinct ?vec" "set ?vec = {0..<ns}" using std_shuffle_upt [of device ns] by simp_all
  from insert_loop_ok [OF wf ns nk h1(1) incr(1) bound inv0 vec(1), of nd opt] vec(2)
  obtain picks ls where
    lp: "insert_loop nd tgt opt ?incr ?vec (first_state h1 st) = Returned ls"
    and inv: "loop_inv tgt ?es ?incr picks h1 ls" and pk: "map fst picks = ?vec"
      "\<forall>p\<in>set picks. snd p < nk" by auto
  from insert_finish_ok [OF inv, of nd opt] obtain ls1 where
    fin: "insert_finish nd tgt opt ls = Returned ls1"
    and ct: "contents (ls_eng ls1) = apply_writes ?es (map (increment_of ?es ?incr) picks)
          \<or> contents (ls_eng ls1) = ?es"
    and f1: "faults (ls_eng ls1) = []" "pending (ls_eng ls1) = []"
      "num_keys (ls_ins ls1) = num_keys h1" "num_sets (ls_ins ls1) = num_sets h1" by blast
  have res: "DoInsert nd tgt opt device h st
      = Returned (\<not> ls_unexpected ls1, count_outcome (ls_status ls1) (ls_ins ls1), ls_eng ls1)"
    using n lp fin h1 by (simp add: DoInsert_def Let_def)
  have fs: "fst ` set picks = {0..<ns}" using pk(1) vec(2) by (metis set_map)
  have dp: "distinct (map fst picks)" using pk(1) vec(1) by simp
  have pp: "\<forall>p\<in>set picks. fst p < ns \<and> snd p < nk"
    using pk(2) fs by (metis atLeastLessThan_iff imageI)
  from apply_increments [OF wf ns incr(1) bound dp pp] fs tot
  have new: "consistent ns nk (T + ?incr) (apply_writes ?es (map (increment_of ?es ?incr) picks))"
    by (simp add: consistent_def)
  have ck: "num_keys (count_outcome (ls_status ls1) (ls_ins ls1)) = nk
          \<and> num_sets (count_outcome (ls_status ls1) (ls_ins ls1)) = ns"
    using f1 h1 by (simp add: count_outcome_def)
  from ct show ?thesis
  proof
    assume "contents (ls_eng ls1) = apply_writes ?es (map (increment_of ?es ?incr) picks)"
    with new res f1 ck incr(2) show ?thesis
      by (intro exI [of _ "\<not> ls_unexpected ls1"] exI [of _ "count_outcome (ls_status ls1) (ls_ins ls1)"]
          exI [of _ "ls_eng ls1"] exI [of _ "T + ?incr"]) simp
  next
    assume "contents (ls_eng ls1) = ?es"
    with c res f1 ck show ?thesis
      by (intro exI [of _ "\<not> ls_unexpected ls1"] exI [of _ "count_outcome (ls_status ls1) (ls_ins ls1)"]
          exI [of _ "ls_eng ls1"] exI [of _ T]) simp
  qed
qed

lemma run_inserts_ok:
  assumes h: "num_sets h = ns" "num_keys h = nk" and nk: "0 < nk" and ns: "ns \<le> 9999"
  shows "consistent ns nk T (contents st) \<Longrightarrow> faults st = [] \<Longrightarrow> pending st = []
     \<Longrightarrow> num_sets h0 = ns \<Longrightarrow> num_keys h0 = nk \<Longrightarrow> T + 100 * length txns < ULONG_MAX
     \<Longrightarrow> \<exists>h' st' T'. run_inserts nd txns h0 st = Some (h', st')
           \<and> consistent ns nk T' (contents st') \<and> faults st' = []"
proof (induction txns arbitrary: h0 st T)
  case Nil
  then show ?case by auto
next
  case (Cons t txns)
  obtain tgt opt device where t: "t = (tgt, opt, device)" by (cases t)
  from Cons.prems(6) have b: "T + 100 < ULONG_MAX" by simp
  from DoInsert_ok [OF Cons.prems(1,2,3,4,5) nk ns b, of nd tgt opt device]
  obtain b' h1 st1 T1 where
    d: "DoInsert nd tgt opt device h0 st = Returned (b', h1, st1)"
    and c1: "consistent ns nk T1 (contents st1)" "T1 \<le> T + 100"
      "faults st1 = []" "pending st1 = []" "num_sets h1 = ns" "num_keys h1 = nk" by blast
  from Cons.prems(6) c1(2) have "T1 + 100 * length txns < ULONG_MAX" by simp
  from Cons.IH [OF c1(1,3,4,5,6) this] d t show ?case by simp
qed


text \<open>
  When no call of the engine fails, every run ends with a successful commit, a
  successful batch write or the deliberate rollback, and the sums stay equal: starting
  from an empty key space, after fewer than \<open>(2^64 - 1) / 100\<close> such runs \<open>Verify\<close>, called
  with the numbers of sets and keys of the inserter, returns \<open>OK\<close>.
\<close>

lemma committed_inserts_verify:
  assumes "contents st = []" and "pending st = []" and "faults st = []"
    and "0 < num_keys h" and "num_sets h \<le> 9999" and "100 * length txns < ULONG_MAX"
  shows "insert_then_verify nd txns h st take_snapshot device rnd = Some OK"
proof -
  have c0: "consistent (num_sets h) (num_keys h) 0 (contents st)"
    using assms(1) by (simp add: consistent_def well_formed_def set_total_def val_at_def)
  from run_inserts_ok [OF refl refl assms(4,5) c0 assms(3,2) refl refl, of txns nd] assms(6)
  obtain h' st' T' where
    r: "run_inserts nd txns h st = Some (h', st')"
    and c: "consistent (num_sets h) (num_keys h) T' (contents st')" and f: "faults st' = []"
    by auto
  from c have "well_formed (num_sets h) (num_keys h) (contents st')"
    and "\<forall>s<num_sets h. set_total (num_keys h) (contents st') s = T'"
    by (simp_all add: consistent_def)
  from Verify_consistent [OF this(1) f assms(5) this(2), of nd take_snapshot device rnd]
  obtain rnd1 st1 where
    "Verify nd (num_sets h) (num_keys h) take_snapshot device rnd st' = Returned (OK, rnd1, st1)"
    by blast
  with r show ?thesis by (simp add: insert_then_verify_def returned_status_def)
qed


text \<open>
  Claim C1 (the code breaks it). One run on the empty key space with two sets, in which
  the first \<open>Put\<close> fails with an unexpected status: the loop goes on, the transaction
  holds the increment of one set only and finishes with a successful \<open>Commit\<close>, counted
  as a success; \<open>Verify\<close> then finds the totals 0 and 1 and returns \<open>Corruption\<close>.
\<close>

theorem partial_commit_breaks_equal_sums:
  "calls_after (DoInsert False InTxn False [] (inserter_of [0, 0, 1, 0, 1, 1, 1] 1 2)
       (scripted [OK, IOError] (store_of [])))
     = [TxnGet None ''00020'' False NotFound [], TxnPut None ''00020'' ''1'' IOError,
        TxnGet None ''00010'' False NotFound [], TxnPut None ''00010'' ''1'' OK,
        TxnPrepare OK, TxnCommit OK]
   \<and> counts_after (DoInsert False InTxn False [] (inserter_of [0, 0, 1, 0, 1, 1, 1] 1 2)
       (scripted [OK, IOError] (store_of []))) = Some (1, 0, OK)
   \<and> insert_then_verify False [(InTxn, False, [])] (inserter_of [0, 0, 1, 0, 1, 1, 1] 1 2)
       (scripted [OK, IOError] (store_of [])) False [] None = Some Corruption
   \<and> insert_then_verify True [(InTxn, False, [])] (inserter_of [0, 0, 1, 0, 1, 1, 1] 1 2)
       (scripted [OK, IOError] (store_of [])) True [] None = Some Corruption"
  by (simp add: insert_then_verify_def insert_eval engine_eval verify_eval shuffle_2 full_key_0_0
      full_key_1_0 ToString_1 stoull_eval set_prefix_0 set_prefix_1)


end
